theory Spec2Isabelle
  imports Main "HOL-Library.Word"
begin

unbundle bit_operations_syntax

section \<open>JavaScript strings\<close>

text \<open>
  The content script \<^verbatim>\<open>src/chromeext/annotations.js\<close> works on JavaScript strings:
  sequences of 16-bit UTF-16 code units. \<^verbatim>\<open>s.split("")\<close> yields one string per code
  unit, so the "characters" the renderer walks over are code units.
\<close>

type_synonym jschar = "16 word"
type_synonym jsstring = "jschar list"

definition js :: "string \<Rightarrow> jsstring" where
  "js s = map (\<lambda>c. word_of_nat (of_char c)) s"

abbreviation chLt :: jschar where "chLt \<equiv> 0x3C"
abbreviation chGt :: jschar where "chGt \<equiv> 0x3E"
abbreviation chSpace :: jschar where "chSpace \<equiv> 0x20"
abbreviation chNewline :: jschar where "chNewline \<equiv> 0x0A"
abbreviation chDot :: jschar where "chDot \<equiv> 0x2E"
abbreviation chSlash :: jschar where "chSlash \<equiv> 0x2F"

text \<open>
  \<^verbatim>\<open>"..." + v\<close> where \<^verbatim>\<open>v\<close> may be \<^verbatim>\<open>undefined\<close> (\<open>None\<close>): the
  concatenation uses the text \<^verbatim>\<open>undefined\<close>.
\<close>

definition jsToString :: "jsstring option \<Rightarrow> jsstring" where
  "jsToString v = (case v of None \<Rightarrow> js ''undefined'' | Some s \<Rightarrow> s)"

text \<open>\<^verbatim>\<open>xs[i]\<close> on an array: \<^verbatim>\<open>undefined\<close> out of range, never an exception.\<close>

definition nth_opt :: "'a list \<Rightarrow> nat \<Rightarrow> 'a option" where
  "nth_opt xs i = (if i < length xs then Some (xs ! i) else None)"

text \<open>\<^verbatim>\<open>s.split(sep)\<close> for a one-character separator: always at least one segment.\<close>

fun split :: "jschar \<Rightarrow> jsstring \<Rightarrow> jsstring list" where
  "split sep [] = [[]]"
| "split sep (c # cs) =
     (if c = sep then [] # split sep cs
      else (case split sep cs of
              [] \<Rightarrow> [[c]]
            | w # ws \<Rightarrow> (c # w) # ws))"

text \<open>
  \<^verbatim>\<open>s.toLowerCase()\<close> on the letters A to Z. Code units outside ASCII are left as they
  are: the Unicode lower-case mapping sends none of them to \<^verbatim>\<open>g\<close> or \<^verbatim>\<open>o\<close>, the only
  letters the script compares the result with.
\<close>

definition lowerChar :: "jschar \<Rightarrow> jschar" where
  "lowerChar c = (if 0x41 \<le> c \<and> c \<le> 0x5A then c + 0x20 else c)"

definition toLowerCase :: "jsstring \<Rightarrow> jsstring" where
  "toLowerCase s = map lowerChar s"

section \<open>UTF-8 byte lengths\<close>

text \<open>
  Modelled from the spec: \<^verbatim>\<open>utf8.encode\<close> belongs to a third-party library that is not
  under \<^verbatim>\<open>src/\<close>; the script only uses the length of its result. The spec calls that
  length "the UTF-8 byte length of the character (1-4)". A string is read as code
  points (a high surrogate followed by a low surrogate is one code point above
  \<open>0xFFFF\<close>), and every code point takes 1 to 4 bytes by its magnitude. A surrogate
  without its partner is a code point in \<open>0xD800..0xDFFF\<close> and takes the three bytes
  of that range.
\<close>

definition isHighSurrogate :: "jschar \<Rightarrow> bool" where
  "isHighSurrogate c = (0xD800 \<le> c \<and> c \<le> 0xDBFF)"

definition isLowSurrogate :: "jschar \<Rightarrow> bool" where
  "isLowSurrogate c = (c AND 0xFC00 = 0xDC00)"

fun ucs2decode :: "jsstring \<Rightarrow> nat list" where
  "ucs2decode [] = []"
| "ucs2decode [c] = [unat c]"
| "ucs2decode (c # d # cs) =
     (if isHighSurrogate c \<and> isLowSurrogate d
      then (push_bit 10 (unat (c AND 0x3FF)) + unat (d AND 0x3FF) + 0x10000) # ucs2decode cs
      else unat c # ucs2decode (d # cs))"

definition codePointBytes :: "nat \<Rightarrow> nat" where
  "codePointBytes cp =
     (if cp < 0x80 then 1 else if cp < 0x800 then 2 else if cp < 0x10000 then 3 else 4)"

definition utf8_length :: "jsstring \<Rightarrow> nat" where
  "utf8_length s = sum_list (map codePointBytes (ucs2decode s))"

section \<open>Annotations and their index\<close>

text \<open>
  One record of the annotation service's reply. \<^verbatim>\<open>URL\<close> may be absent
  (\<^verbatim>\<open>undefined\<close>); \<^verbatim>\<open>getSourcegraphRefLinks\<close> skips such records.
\<close>

record annotation =
  StartByte :: int
  EndByte :: int
  URL :: "jsstring option"

type_synonym annmap = "int \<rightharpoonup> annotation"

text \<open>
  \<^verbatim>\<open>getSourcegraphRefLinks\<close>, lines 118-126: the two objects keyed by start byte and
  by end byte; a later record overwrites an earlier one with the same key.
\<close>

fun indexAnnotations :: "annotation list \<Rightarrow> annmap \<times> annmap \<Rightarrow> annmap \<times> annmap" where
  "indexAnnotations [] (annsByStartByte, annsByEndByte) = (annsByStartByte, annsByEndByte)"
| "indexAnnotations (ann # anns) (annsByStartByte, annsByEndByte) =
     (if URL ann \<noteq> None
      then indexAnnotations anns
             (annsByStartByte(StartByte ann \<mapsto> ann), annsByEndByte(EndByte ann \<mapsto> ann))
      else indexAnnotations anns (annsByStartByte, annsByEndByte))"

section \<open>The rendered output\<close>

text \<open>
  The script builds each row's new markup by string concatenation. The model keeps the
  output as a list of pieces, so that the anchors the renderer inserts are told apart
  from characters it copies; \<open>serialize\<close> gives the string the script assigns to
  \<^verbatim>\<open>innerHTML\<close>.
\<close>

datatype piece = Raw jschar | AnchorOpen "jsstring option" | AnchorClose

fun serializePiece :: "piece \<Rightarrow> jsstring" where
  "serializePiece (Raw c) = [c]"
| "serializePiece (AnchorOpen u) =
     js ''<a href='https://sourcegraph.com'' @ jsToString u
     @ js ''?utm_source=chromeext&utm_medium=chromeext&utm_campaign=chromeext' target='tab' class='sgdef'>''"
| "serializePiece AnchorClose = js ''</a>''"

definition serialize :: "piece list \<Rightarrow> jsstring" where
  "serialize ps = concat (map serializePiece ps)"

text \<open>Removing the anchors the renderer inserted leaves the copied characters.\<close>

fun stripAnchors :: "piece list \<Rightarrow> jsstring" where
  "stripAnchors [] = []"
| "stripAnchors (Raw c # ps) = c # stripAnchors ps"
| "stripAnchors (AnchorOpen u # ps) = stripAnchors ps"
| "stripAnchors (AnchorClose # ps) = stripAnchors ps"

section \<open>The overlay renderer\<close>

text \<open>
  \<^verbatim>\<open>next(c, byteCount, annsByStartByte, annsByEndByte)\<close>, lines 209-237. The function
  reads and writes the script-wide flag \<^verbatim>\<open>annotating\<close>; here the flag is an argument
  and the second component of the result.
\<close>

definition nextChar ::
  "jschar \<Rightarrow> int \<Rightarrow> annmap \<Rightarrow> annmap \<Rightarrow> bool \<Rightarrow> piece list \<times> bool" where
  "nextChar c byteCount annsByStartByte annsByEndByte annotating =
     (case (annotating, annsByStartByte byteCount) of
        (False, Some matchDetails) \<Rightarrow>
          (if EndByte matchDetails - StartByte matchDetails = 1
           then ([AnchorOpen (URL matchDetails), Raw c, AnchorClose], False)
           else ([AnchorOpen (URL matchDetails), Raw c], True))
      | _ \<Rightarrow>
          (if annotating \<and> annsByEndByte (byteCount + 1) \<noteq> None
           then ([Raw c, AnchorClose], False)
           else ([Raw c], annotating)))"

text \<open>
  The variables of one pass of \<^verbatim>\<open>traverseDOM\<close>: the two script-wide flags, the byte
  offset of the next visible character and the markup built for the current row.
\<close>

record tstate =
  consumingSpan :: bool
  annotating :: bool
  startByte :: int
  outputMarkup :: "piece list"

text \<open>
  One turn of the loop over the characters of a child node, lines 168-184. \<open>nxt\<close> is
  \<^verbatim>\<open>childNodeChars[k+1]\<close>: \<open>None\<close> after the last character, where the script reads
  \<^verbatim>\<open>undefined\<close>, which differs from a space.
\<close>

definition charStep ::
  "annmap \<Rightarrow> annmap \<Rightarrow> jschar \<Rightarrow> jschar option \<Rightarrow> tstate \<Rightarrow> tstate" where
  "charStep annsByStartByte annsByEndByte c nxt s =
     (let s1 = (if c = chLt \<and> nxt \<noteq> Some chSpace then s\<lparr>consumingSpan := True\<rparr> else s);
          s2 = (if \<not> consumingSpan s1
                then (case nextChar c (startByte s1) annsByStartByte annsByEndByte (annotating s1) of
                        (out, a) \<Rightarrow>
                          s1\<lparr>outputMarkup := outputMarkup s1 @ out,
                             annotating := a,
                             startByte := startByte s1 + int (utf8_length [c])\<rparr>)
                else s1\<lparr>outputMarkup := outputMarkup s1 @ [Raw c]\<rparr>)
      in if c = chGt then s2\<lparr>consumingSpan := False\<rparr> else s2)"

text \<open>The loop itself, over the characters of one child node.\<close>

fun walkChars :: "annmap \<Rightarrow> annmap \<Rightarrow> jsstring \<Rightarrow> tstate \<Rightarrow> tstate" where
  "walkChars annsByStartByte annsByEndByte [] s = s"
| "walkChars annsByStartByte annsByEndByte (c # cs) s =
     walkChars annsByStartByte annsByEndByte cs
       (charStep annsByStartByte annsByEndByte c (case cs of [] \<Rightarrow> None | d # _ \<Rightarrow> Some d) s)"

text \<open>
  The child nodes of a code cell, as the script reads them. An element gives its
  serialized form (\<^verbatim>\<open>outerHTML\<close>) to the renderer and its text to the cell's
  \<^verbatim>\<open>textContent\<close>. Any other node (a comment) has no \<^verbatim>\<open>outerHTML\<close>, so
  \<^verbatim>\<open>children[j].outerHTML.split("")\<close> raises a TypeError; its text is not part of
  \<^verbatim>\<open>textContent\<close>.
\<close>

datatype node =
    TextNode jsstring
  | ElementNode jsstring jsstring
  | CommentNode jsstring

datatype error = TypeError | InvalidCharacterError

fun childNodeChars :: "node \<Rightarrow> error + jsstring" where
  "childNodeChars (TextNode nodeValue) = Inr nodeValue"
| "childNodeChars (ElementNode outerHTML elementText) = Inr outerHTML"
| "childNodeChars (CommentNode commentText) = Inl TypeError"

fun nodeText :: "node \<Rightarrow> jsstring" where
  "nodeText (TextNode nodeValue) = nodeValue"
| "nodeText (ElementNode outerHTML elementText) = elementText"
| "nodeText (CommentNode commentText) = []"

definition textContent :: "node list \<Rightarrow> jsstring" where
  "textContent children = concat (map nodeText children)"

text \<open>
  The loop over the child nodes of one code cell, lines 150-185. Both flags are set to
  false before the characters of each child are walked (lines 163 and 165).
\<close>

fun walkChildren :: "annmap \<Rightarrow> annmap \<Rightarrow> node list \<Rightarrow> tstate \<Rightarrow> error + tstate" where
  "walkChildren annsByStartByte annsByEndByte [] s = Inr s"
| "walkChildren annsByStartByte annsByEndByte (child # children) s =
     (case childNodeChars child of
        Inl e \<Rightarrow> Inl e
      | Inr childChars \<Rightarrow>
          walkChildren annsByStartByte annsByEndByte children
            (walkChars annsByStartByte annsByEndByte childChars
               (s\<lparr>consumingSpan := False, annotating := False\<rparr>)))"

text \<open>
  A table row is the list of its cells, a cell the list of its child nodes. One turn of
  the loop over the rows, lines 137-187: \<^verbatim>\<open>row.cells[1]\<close> is the code cell (reading
  \<^verbatim>\<open>childNodes\<close> of a missing cell raises a TypeError), \<^verbatim>\<open>startByte\<close> takes the
  value of \<^verbatim>\<open>count\<close>, then \<^verbatim>\<open>count\<close> moves past the row's text and its newline.
\<close>

type_synonym row = "node list list"

definition traverseRow ::
  "annmap \<Rightarrow> annmap \<Rightarrow> row \<Rightarrow> int \<Rightarrow> tstate \<Rightarrow> error + int \<times> tstate" where
  "traverseRow annsByStartByte annsByEndByte row count s =
     (case nth_opt row 1 of
        None \<Rightarrow> Inl TypeError
      | Some code \<Rightarrow>
          (let s0 = s\<lparr>outputMarkup := [], startByte := count\<rparr>;
               count1 = count + int (utf8_length (textContent code));
               count2 = (if textContent code \<noteq> [chNewline] then count1 + 1 else count1)
           in case walkChildren annsByStartByte annsByEndByte code s0 of
                Inl e \<Rightarrow> Inl e
              | Inr s' \<Rightarrow> Inr (count2, s')))"

text \<open>
  The loop over the rows. \<^verbatim>\<open>replace(code, output)\<close> defers the assignment to
  \<^verbatim>\<open>innerHTML\<close> by one tick, so the first component lists the replacements scheduled
  (row number and new markup) up to the row where an exception ended the pass, if any.
\<close>

fun traverseRows ::
  "annmap \<Rightarrow> annmap \<Rightarrow> row list \<Rightarrow> nat \<Rightarrow> int \<Rightarrow> tstate
     \<Rightarrow> (nat \<times> piece list) list \<times> (error + int \<times> tstate)" where
  "traverseRows annsByStartByte annsByEndByte [] i count s = ([], Inr (count, s))"
| "traverseRows annsByStartByte annsByEndByte (row # rows) i count s =
     (case traverseRow annsByStartByte annsByEndByte row count s of
        Inl e \<Rightarrow> ([], Inl e)
      | Inr (count', s') \<Rightarrow>
          (case traverseRows annsByStartByte annsByEndByte rows (Suc i) count' s' of
             (later, r) \<Rightarrow> ((i, outputMarkup s') # later, r)))"

section \<open>The page, the services and the pipeline\<close>

text \<open>
  What the script reads from the document: its URL, whether an element of class
  \<^verbatim>\<open>file\<close> exists, whether \<^verbatim>\<open>.file .blob-wrapper\<close> matches, the text of the first
  \<^verbatim>\<open>final-path\<close> element, whether an element of class \<^verbatim>\<open>vis-private\<close> exists, the
  target of the first \<^verbatim>\<open>js-permalink-shortcut\<close> element, the rows of the first table
  and whether a popover is visible. \<open>None\<close> stands for an element that is not there.
\<close>

record page =
  docURL :: jsstring
  hasFile :: bool
  blobWrapper :: bool
  finalPath :: "jsstring option"
  visPrivate :: bool
  permalinkHref :: "jsstring option"
  codeTable :: "row list option"
  popoverVisible :: bool

text \<open>
  How each request ends: jQuery calls the \<^verbatim>\<open>done\<close> handlers with the data or the
  \<^verbatim>\<open>fail\<close> handlers. The identity reply is given as \<^verbatim>\<open>authHandler\<close> reads it after
  parsing: \<open>None\<close> when the document has no \<^verbatim>\<open>head\<close> element, otherwise the
  value of the token attribute (\<open>None\<close> for \<^verbatim>\<open>null\<close>). The annotation reply is its
  \<^verbatim>\<open>Annotations\<close> field, \<open>None\<close> when the field is missing.
\<close>

datatype 'a ajax = Fail | Done 'a

record server =
  authReply :: "jsstring option option ajax"
  versionReply :: "unit ajax"
  annotationsReply :: "annotation list option ajax"

record request =
  token :: "jsstring option"
  user :: "jsstring option"
  repo :: "jsstring option"
  branch :: "jsstring option"
  commitID :: "jsstring option"
  path :: "jsstring option"

text \<open>
  What a run does to the outside: the click listener, the three requests, and the two
  changes of the document (a cell's markup replaced, with the popovers activated on the
  new content, and the visible popover dismissed).
\<close>

datatype action =
    ListenClicks
  | AuthRequest
  | VersionRequest request
  | AnnotationsRequest request
  | DismissPopover
  | ReplaceCell nat "piece list"

fun isRequest :: "action \<Rightarrow> bool" where
  "isRequest AuthRequest = True"
| "isRequest (VersionRequest rq) = True"
| "isRequest (AnnotationsRequest rq) = True"
| "isRequest a = False"

fun isMutation :: "action \<Rightarrow> bool" where
  "isMutation DismissPopover = True"
| "isMutation (ReplaceCell i markup) = True"
| "isMutation a = False"

fun isVersionRequest :: "action \<Rightarrow> bool" where
  "isVersionRequest (VersionRequest rq) = True"
| "isVersionRequest a = False"

fun isAnnotationsRequest :: "action \<Rightarrow> bool" where
  "isAnnotationsRequest (AnnotationsRequest rq) = True"
| "isAnnotationsRequest a = False"

text \<open>
  The result of a run: the actions in the order they happen, and the exception that
  ended the run, if one did.
\<close>

type_synonym outcome = "action list \<times> error option"

definition prepend :: "action list \<Rightarrow> outcome \<Rightarrow> outcome" where
  "prepend as r = (as @ fst r, snd r)"

text \<open>
  \<^verbatim>\<open>traverseDOM\<close>, lines 131-193. The flags are script-wide variables; every child
  node sets them before they are read, so the values they have when the pass starts do
  not matter (\<open>initial_flags_irrelevant\<close> below). The popover is dismissed at the end
  of the pass, before the deferred replacements run.
\<close>

definition initialState :: tstate where
  "initialState = \<lparr>consumingSpan = False, annotating = False, startByte = 0, outputMarkup = []\<rparr>"

definition traverseDOM :: "page \<Rightarrow> annmap \<Rightarrow> annmap \<Rightarrow> outcome" where
  "traverseDOM p annsByStartByte annsByEndByte =
     (case codeTable p of
        None \<Rightarrow> ([], Some TypeError)
      | Some rows \<Rightarrow>
          (case traverseRows annsByStartByte annsByEndByte rows 0 0 initialState of
             (scheduled, Inl e) \<Rightarrow> (map (\<lambda>(i, markup). ReplaceCell i markup) scheduled, Some e)
           | (scheduled, Inr final) \<Rightarrow>
               ((if popoverVisible p then [DismissPopover] else [])
                @ map (\<lambda>(i, markup). ReplaceCell i markup) scheduled, None)))"

text \<open>\<^verbatim>\<open>getSourcegraphRefLinks\<close>, lines 117-128.\<close>

definition getSourcegraphRefLinks :: "page \<Rightarrow> annotation list option \<Rightarrow> outcome" where
  "getSourcegraphRefLinks p annotations =
     (case annotations of
        None \<Rightarrow> ([], Some TypeError)
      | Some anns \<Rightarrow>
          (case indexAnnotations anns (Map.empty, Map.empty) of
             (annsByStartByte, annsByEndByte) \<Rightarrow> traverseDOM p annsByStartByte annsByEndByte))"

text \<open>
  \<^verbatim>\<open>window.btoa\<close> raises an InvalidCharacterError on a code unit above \<open>0xFF\<close>.
\<close>

definition btoaAccepts :: "jsstring option \<Rightarrow> bool" where
  "btoaAccepts v = list_all (\<lambda>c. c \<le> 0xFF) (jsToString v)"

text \<open>\<^verbatim>\<open>getAnnotations\<close>, lines 105-114: the request, then its \<^verbatim>\<open>done\<close> handler.\<close>

definition getAnnotations :: "page \<Rightarrow> server \<Rightarrow> request \<Rightarrow> outcome" where
  "getAnnotations p sv rq =
     (if \<not> btoaAccepts (token rq) then ([], Some InvalidCharacterError)
      else (case annotationsReply sv of
              Fail \<Rightarrow> ([AnnotationsRequest rq], None)
            | Done annotations \<Rightarrow>
                prepend [AnnotationsRequest rq] (getSourcegraphRefLinks p annotations)))"

text \<open>
  The handlers attached to the version request, lines 99-102. The argument of
  \<^verbatim>\<open>done\<close> is the value of the call \<^verbatim>\<open>getAnnotations(...)\<close>, which is
  \<^verbatim>\<open>undefined\<close>, so no handler runs on success; the \<^verbatim>\<open>fail\<close> handler returns at once.
\<close>

definition versionHandlers :: "unit ajax \<Rightarrow> action list" where
  "versionHandlers reply = (case reply of Done u \<Rightarrow> [] | Fail \<Rightarrow> [])"

text \<open>
  The path of the file, lines 81-86: segment 7 of the URL, followed by the later
  segments, each after a slash.
\<close>

definition urlPath :: "jsstring list \<Rightarrow> jsstring option" where
  "urlPath urlsplit =
     (if length urlsplit > 8
      then Some (foldl (\<lambda>acc seg. acc @ [chSlash] @ seg)
                   (jsToString (nth_opt urlsplit 7)) (drop 8 urlsplit))
      else nth_opt urlsplit 7)"

text \<open>
  \<^verbatim>\<open>checkLatestCommit(token)\<close>, lines 73-103. The version request is sent; while the
  argument of \<^verbatim>\<open>done\<close> is evaluated, \<^verbatim>\<open>getAnnotations\<close> is called and sends the
  annotation request; the replies arrive later.
\<close>

definition checkLatestCommit :: "page \<Rightarrow> server \<Rightarrow> jsstring option \<Rightarrow> outcome" where
  "checkLatestCommit p sv tok =
     (let urlsplit = split chSlash (docURL p);
          kind = nth_opt urlsplit 5;
          br = (if kind = Some (js ''tree'') \<or> kind = Some (js ''blob'')
                then nth_opt urlsplit 6 else Some (js ''master''))
      in case (if hasFile p
               then (case permalinkHref p of
                       None \<Rightarrow> Inl TypeError
                     | Some href \<Rightarrow> Inr (nth_opt (split chSlash href) 6))
               else Inr None) of
           Inl e \<Rightarrow> ([], Some e)
         | Inr cid \<Rightarrow>
             (let rq = \<lparr>token = tok, user = nth_opt urlsplit 3, repo = nth_opt urlsplit 4,
                        branch = br, commitID = cid, path = urlPath urlsplit\<rparr>
              in if \<not> btoaAccepts tok then ([], Some InvalidCharacterError)
                 else (case getAnnotations p sv rq of
                         (acts, err) \<Rightarrow>
                           ([VersionRequest rq] @ acts @ versionHandlers (versionReply sv), err))))"

text \<open>\<^verbatim>\<open>authHandler(data)\<close>, lines 66-71.\<close>

definition authHandler :: "page \<Rightarrow> server \<Rightarrow> jsstring option option \<Rightarrow> outcome" where
  "authHandler p sv parsed =
     (case parsed of
        None \<Rightarrow> ([], Some TypeError)
      | Some attribute \<Rightarrow>
          checkLatestCommit p sv
            (Some (js ''x-oauth-basic:''
                   @ (case attribute of None \<Rightarrow> js ''null'' | Some t \<Rightarrow> t))))"

text \<open>
  \<^verbatim>\<open>getAuthToken\<close>, lines 56-63: only a \<^verbatim>\<open>done\<close> handler is attached to the request.
\<close>

definition getAuthToken :: "page \<Rightarrow> server \<Rightarrow> outcome" where
  "getAuthToken p sv =
     (if visPrivate p
      then (case authReply sv of
              Fail \<Rightarrow> ([AuthRequest], None)
            | Done parsed \<Rightarrow> prepend [AuthRequest] (authHandler p sv parsed))
      else ([], None))"

text \<open>\<^verbatim>\<open>mainCall\<close>, lines 34-54.\<close>

definition fileExtension :: "jsstring \<Rightarrow> jsstring" where
  "fileExtension name = toLowerCase (last (split chDot name))"

definition mainCall :: "page \<Rightarrow> server \<Rightarrow> outcome" where
  "mainCall p sv =
     (if blobWrapper p
      then (case finalPath p of
              None \<Rightarrow> ([ListenClicks], Some TypeError)
            | Some innerText \<Rightarrow>
                (if fileExtension innerText = js ''go''
                 then (if visPrivate p
                       then prepend [ListenClicks] (getAuthToken p sv)
                       else prepend [ListenClicks] (checkLatestCommit p sv None))
                 else ([ListenClicks], None)))
      else ([], None))"

section \<open>Notions used to state the properties\<close>

text \<open>
  The characters of a code cell as the page holds them before the pass: the value of
  each text node and the serialized form of each element, in document order.
\<close>

fun nodeMarkup :: "node \<Rightarrow> jsstring" where
  "nodeMarkup (TextNode nodeValue) = nodeValue"
| "nodeMarkup (ElementNode outerHTML elementText) = outerHTML"
| "nodeMarkup (CommentNode commentText) = []"

definition rowMarkup :: "node list \<Rightarrow> jsstring" where
  "rowMarkup children = concat (map nodeMarkup children)"


text \<open>
  The contribution of a row to the byte counter as the specification words it: the sum
  of the UTF-8 byte lengths of the characters of the row's text, and one byte more for
  the newline unless the text is a lone newline.
\<close>

definition rowContribution :: "jsstring \<Rightarrow> int" where
  "rowContribution text =
     int (sum_list (map codePointBytes (ucs2decode text)))
     + (if text = [chNewline] then 0 else 1)"

text \<open>
  \<open>closesMatched opened ps\<close>: every closing anchor in \<open>ps\<close> closes an anchor that is
  open at that point, where \<open>opened\<close> tells whether one is open before \<open>ps\<close>;
  \<open>openAfter opened ps\<close> tells whether one is open after \<open>ps\<close>.
\<close>

fun closesMatched :: "bool \<Rightarrow> piece list \<Rightarrow> bool" where
  "closesMatched opened [] = True"
| "closesMatched opened (Raw c # ps) = closesMatched opened ps"
| "closesMatched opened (AnchorOpen u # ps) = closesMatched True ps"
| "closesMatched opened (AnchorClose # ps) = (opened \<and> closesMatched False ps)"

fun openAfter :: "bool \<Rightarrow> piece list \<Rightarrow> bool" where
  "openAfter opened [] = opened"
| "openAfter opened (Raw c # ps) = openAfter opened ps"
| "openAfter opened (AnchorOpen u # ps) = openAfter True ps"
| "openAfter opened (AnchorClose # ps) = openAfter False ps"

text \<open>
  The character after the current one, as the loop reads it.
\<close>

definition peek :: "jsstring \<Rightarrow> jschar option" where
  "peek cs = (case cs of [] \<Rightarrow> None | d # x \<Rightarrow> Some d)"

text \<open>
  The markup one child node adds when it is rendered on its own: from byte offset \<open>k\<close>,
  with both flags false and nothing emitted yet. \<open>childSegments\<close> lists these pieces of
  markup for the child nodes of a cell, each child node starting at the offset the one
  before it ended at, and \<open>childrenEnd\<close> is the offset after the last of them.
\<close>

definition renderChild :: "annmap \<Rightarrow> annmap \<Rightarrow> int \<Rightarrow> jsstring \<Rightarrow> tstate" where
  "renderChild S E k cs =
     walkChars S E cs
       \<lparr>consumingSpan = False, annotating = False, startByte = k, outputMarkup = []\<rparr>"

fun childSegments :: "annmap \<Rightarrow> annmap \<Rightarrow> int \<Rightarrow> jsstring list \<Rightarrow> piece list list" where
  "childSegments S E k [] = []"
| "childSegments S E k (cs # css) =
     outputMarkup (renderChild S E k cs)
     # childSegments S E (startByte (renderChild S E k cs)) css"

fun childrenEnd :: "annmap \<Rightarrow> annmap \<Rightarrow> int \<Rightarrow> jsstring list \<Rightarrow> int" where
  "childrenEnd S E k [] = k"
| "childrenEnd S E k (cs # css) = childrenEnd S E (startByte (renderChild S E k cs)) css"

text \<open>
  A stretch of the characters of a child node, cut into the units the loop tells apart:
  a character counted as text, and a tag, from \<^verbatim>\<open><\<close> to the next \<^verbatim>\<open>>\<close>, copied as it
  is. \<open>itemsOk items after\<close> says that the stretch, followed by the characters \<open>after\<close>,
  is read by the loop in exactly this way: a \<^verbatim>\<open><\<close> counted as text has a space after
  it, and a tag has no space after its \<^verbatim>\<open><\<close> and no \<^verbatim>\<open>>\<close> before its end. Every
  stretch that the loop enters and leaves outside markup is of this form.
  \<open>itemsBytes\<close> is the number of bytes the loop counts for the stretch, each code unit
  measured alone, and \<open>endProbes k items\<close> lists the keys at which the loop consults the
  end index while it walks the stretch from offset \<open>k\<close> with an annotation open: the
  offset of each counted character plus one.
\<close>

datatype item = Visible jschar | Tag jsstring

fun itemChars :: "item \<Rightarrow> jsstring" where
  "itemChars (Visible c) = [c]"
| "itemChars (Tag body) = chLt # body @ [chGt]"

definition itemsChars :: "item list \<Rightarrow> jsstring" where
  "itemsChars items = concat (map itemChars items)"

fun itemBytes :: "item \<Rightarrow> int" where
  "itemBytes (Visible c) = int (utf8_length [c])"
| "itemBytes (Tag body) = 0"

definition itemsBytes :: "item list \<Rightarrow> int" where
  "itemsBytes items = sum_list (map itemBytes items)"

fun itemsOk :: "item list \<Rightarrow> jsstring \<Rightarrow> bool" where
  "itemsOk [] after = True"
| "itemsOk (Visible c # items) after =
     (\<not> (c = chLt \<and> peek (itemsChars items @ after) \<noteq> Some chSpace)
      \<and> itemsOk items after)"
| "itemsOk (Tag body # items) after =
     (chGt \<notin> set body \<and> peek (body @ [chGt]) \<noteq> Some chSpace \<and> itemsOk items after)"

fun endProbes :: "int \<Rightarrow> item list \<Rightarrow> int list" where
  "endProbes k [] = []"
| "endProbes k (Visible c # items) = (k + 1) # endProbes (k + int (utf8_length [c])) items"
| "endProbes k (Tag body # items) = endProbes k items"

text \<open>
  The state of the character loop after the first characters \<open>pre\<close> of a child node,
  where \<open>nxt\<close> is the character that follows them.
\<close>

fun walkPrefix :: "annmap \<Rightarrow> annmap \<Rightarrow> jsstring \<Rightarrow> jschar option \<Rightarrow> tstate \<Rightarrow> tstate" where
  "walkPrefix S E [] nxt s = s"
| "walkPrefix S E (c # cs) nxt s =
     walkPrefix S E cs nxt (charStep S E c (case cs of [] \<Rightarrow> nxt | d # x \<Rightarrow> Some d) s)"

text \<open>The text of a row's code cell (empty when the row has no second cell).\<close>

definition codeText :: "row \<Rightarrow> jsstring" where
  "codeText row = (case nth_opt row 1 of None \<Rightarrow> [] | Some code \<Rightarrow> textContent code)"

section \<open>Example pages\<close>

text \<open>
  The scenario of the specification: the row \<^verbatim>\<open>fmt.Println(x)\<close> with annotations
  on \<^verbatim>\<open>fmt\<close> (bytes 0 to 3) and \<^verbatim>\<open>Println\<close> (bytes 4 to 11). The first cell of a row
  holds the line number and has no child node.
\<close>

definition fmtAnnotations :: "annotation list" where
  "fmtAnnotations =
     [\<lparr>StartByte = 0, EndByte = 3, URL = Some (js ''/x/fmt'')\<rparr>,
      \<lparr>StartByte = 4, EndByte = 11, URL = Some (js ''/x/Println'')\<rparr>]"

definition fmtStarts :: annmap where
  "fmtStarts = fst (indexAnnotations fmtAnnotations (Map.empty, Map.empty))"

definition fmtEnds :: annmap where
  "fmtEnds = snd (indexAnnotations fmtAnnotations (Map.empty, Map.empty))"

definition fmtCell :: "node list" where
  "fmtCell = [TextNode (js ''fmt.Println(x)'')]"

definition fmtRow :: row where
  "fmtRow = [[], fmtCell]"

definition fmtMarkup :: "piece list" where
  "fmtMarkup =
     [AnchorOpen (Some (js ''/x/fmt''))] @ map Raw (js ''fmt'')
     @ [AnchorClose, Raw chDot, AnchorOpen (Some (js ''/x/Println''))] @ map Raw (js ''Println'')
     @ [AnchorClose] @ map Raw (js ''(x)'')"

definition printlnAnnotation :: annotation where
  "printlnAnnotation = \<lparr>StartByte = 4, EndByte = 11, URL = Some (js ''/x/Println'')\<rparr>"

text \<open>A state of the walk at byte offset \<open>k\<close>, outside markup, with nothing emitted yet.\<close>

definition atOffset :: "bool \<Rightarrow> int \<Rightarrow> tstate" where
  "atOffset opened k =
     \<lparr>consumingSpan = False, annotating = opened, startByte = k, outputMarkup = []\<rparr>"

text \<open>
  The state of the walk over \<^verbatim>\<open>fmt.Println(x)\<close> when the \<^verbatim>\<open>P\<close> is reached.
\<close>

definition fmtDotState :: tstate where
  "fmtDotState =
     \<lparr>consumingSpan = False, annotating = False, startByte = 4,
      outputMarkup = [AnchorOpen (Some (js ''/x/fmt''))] @ map Raw (js ''fmt'')
        @ [AnchorClose, Raw chDot]\<rparr>"

text \<open>A state of the walk inside the opening tag of a \<^verbatim>\<open>span\<close> element.\<close>

definition tagState :: tstate where
  "tagState =
     \<lparr>consumingSpan = True, annotating = False, startByte = 0,
      outputMarkup = map Raw (js ''<span'')\<rparr>"

text \<open>
  A file page of a public repository showing that row, the request the script builds
  for it, the same page marked private, and the page of a file that is not Go source.
\<close>

definition goPage :: page where
  "goPage =
     \<lparr>docURL = js ''https://github.com/golang/go/blob/master/src/fmt/print.go'',
      hasFile = True, blobWrapper = True, finalPath = Some (js ''print.go''),
      visPrivate = False,
      permalinkHref = Some (js ''https://github.com/golang/go/blob/0123abcd/src/fmt/print.go''),
      codeTable = Some [fmtRow], popoverVisible = False\<rparr>"

definition goRequest :: "jsstring option \<Rightarrow> request" where
  "goRequest tok =
     \<lparr>token = tok, user = Some (js ''golang''), repo = Some (js ''go''),
      branch = Some (js ''master''), commitID = Some (js ''0123abcd''),
      path = Some (js ''src/fmt/print.go'')\<rparr>"

definition privateGoPage :: page where
  "privateGoPage = goPage\<lparr>visPrivate := True\<rparr>"

definition readmePage :: page where
  "readmePage = goPage\<lparr>finalPath := Some (js ''README.md'')\<rparr>"

text \<open>
  An annotation on the two bytes \<^verbatim>\<open>ab\<close>, and two code cells that hold these bytes in
  two child nodes: two text nodes, and an element followed by a text node.
\<close>

definition abAnnotations :: "annotation list" where
  "abAnnotations = [\<lparr>StartByte = 0, EndByte = 2, URL = Some (js ''/x/ab'')\<rparr>]"

definition abStarts :: annmap where
  "abStarts = fst (indexAnnotations abAnnotations (Map.empty, Map.empty))"

definition abEnds :: annmap where
  "abEnds = snd (indexAnnotations abAnnotations (Map.empty, Map.empty))"

definition abTextCell :: "node list" where
  "abTextCell = [TextNode (js ''a''), TextNode (js ''b'')]"

definition abSpanCell :: "node list" where
  "abSpanCell = [ElementNode (js ''<span>a</span>'') (js ''a''), TextNode (js ''b'')]"

text \<open>The state after the \<^verbatim>\<open>a\<close> of that annotation has been emitted.\<close>

definition abOpenState :: tstate where
  "abOpenState =
     \<lparr>consumingSpan = False, annotating = True, startByte = 1,
      outputMarkup = [AnchorOpen (Some (js ''/x/ab'')), Raw 0x61]\<rparr>"


text \<open>
  The character U+1F600, outside the Basic Multilingual Plane: two UTF-16 code units, four
  bytes in UTF-8.
\<close>

definition grinningFace :: jsstring where
  "grinningFace = [0xD83D, 0xDE00]"


text \<open>
  A file of two lines, \<^verbatim>\<open>&&\<close> and \<^verbatim>\<open>abc\<close>, the first shown inside an element, and an
  annotation on the byte at offset 4 of the file, the \<^verbatim>\<open>b\<close>.
\<close>

definition bAnnotation :: annotation where
  "bAnnotation = \<lparr>StartByte = 4, EndByte = 5, URL = Some (js ''/x/b'')\<rparr>"

definition ampRow :: row where
  "ampRow = [[], [ElementNode (js ''<span>&amp;&amp;</span>'') (js ''&&'')]]"

definition abcRow :: row where
  "abcRow = [[], [TextNode (js ''abc'')]]"

text \<open>
  Two annotations that follow each other, on the character U+00E9 (two bytes in UTF-8)
  and on the \<^verbatim>\<open>ab\<close> after it, and the text node that holds the three characters.
\<close>

definition eAnnotation :: annotation where
  "eAnnotation = \<lparr>StartByte = 0, EndByte = 2, URL = Some (js ''/x/e'')\<rparr>"

definition afterAnnotation :: annotation where
  "afterAnnotation = \<lparr>StartByte = 2, EndByte = 4, URL = Some (js ''/x/ab'')\<rparr>"

definition eabCell :: "node list" where
  "eabCell = [TextNode [0xE9, 0x61, 0x62]]"

text \<open>
  Two annotations on the text \<^verbatim>\<open>abcd\<close>, one on the whole of it and one on \<^verbatim>\<open>bc\<close>
  inside the other.
\<close>

definition outerAnnotation :: annotation where
  "outerAnnotation = \<lparr>StartByte = 0, EndByte = 4, URL = Some (js ''/x/abcd'')\<rparr>"

definition innerAnnotation :: annotation where
  "innerAnnotation = \<lparr>StartByte = 1, EndByte = 3, URL = Some (js ''/x/bc'')\<rparr>"

section \<open>Auxiliary facts\<close>

lemma js_simps: "js [] = []" "js (x # xs) = word_of_nat (of_char x) # js xs"
  by (simp_all add: js_def)

lemma utf8_length_single:
  "utf8_length [c] = (if c < 0x80 then 1 else if c < 0x800 then 2 else 3)"
proof -
  have "unat c < 0x10000"
    using unsigned_less [of c, where ?'a = nat] by simp
  then show ?thesis
    by (simp add: utf8_length_def codePointBytes_def word_less_nat_alt)
qed

lemma utf8_length_ascii: "list_all (\<lambda>c. c < 0x80) s \<Longrightarrow> utf8_length s = length s"
proof (induction s rule: ucs2decode.induct)
  case 1
  then show ?case by (simp add: utf8_length_def)
next
  case (2 c)
  then show ?case by (simp add: utf8_length_def codePointBytes_def word_less_nat_alt)
next
  case (3 c d cs)
  from 3(3) have "\<not> isHighSurrogate c"
    by (auto simp: isHighSurrogate_def word_less_nat_alt word_le_nat_alt)
  with 3 show ?case
    by (simp add: utf8_length_def codePointBytes_def word_less_nat_alt)
qed

lemma stripAnchors_append: "stripAnchors (ps @ qs) = stripAnchors ps @ stripAnchors qs"
  by (induction ps rule: stripAnchors.induct) simp_all

lemma stripAnchors_nextChar: "stripAnchors (fst (nextChar c k S E a)) = [c]"
  by (simp add: nextChar_def split: bool.splits option.splits)

text \<open>The two ways a character is handled: inside markup, and as visible text.\<close>

lemma charStep_markup:
  assumes "consumingSpan s \<or> (c = chLt \<and> nxt \<noteq> Some chSpace)"
  shows "charStep S E c nxt s =
           s\<lparr>consumingSpan := (c \<noteq> chGt), outputMarkup := outputMarkup s @ [Raw c]\<rparr>"
  using assms by (auto simp: charStep_def Let_def)

lemma charStep_plain:
  assumes "\<not> consumingSpan s" and "\<not> (c = chLt \<and> nxt \<noteq> Some chSpace)"
  shows "charStep S E c nxt s =
     s\<lparr>outputMarkup := outputMarkup s @ fst (nextChar c (startByte s) S E (annotating s)),
       annotating := snd (nextChar c (startByte s) S E (annotating s)),
       startByte := startByte s + int (utf8_length [c])\<rparr>"
  using assms by (auto simp: charStep_def Let_def split: prod.splits)

lemma stripAnchors_charStep:
  "stripAnchors (outputMarkup (charStep S E c nxt s)) = stripAnchors (outputMarkup s) @ [c]"
proof (cases "consumingSpan s \<or> (c = chLt \<and> nxt \<noteq> Some chSpace)")
  case True
  then show ?thesis by (simp add: charStep_markup stripAnchors_append)
next
  case False
  then show ?thesis by (simp add: charStep_plain stripAnchors_append stripAnchors_nextChar)
qed

lemma stripAnchors_walkChars:
  "stripAnchors (outputMarkup (walkChars S E cs s)) = stripAnchors (outputMarkup s) @ cs"
  by (induction cs arbitrary: s) (simp_all add: stripAnchors_charStep)

lemma stripAnchors_walkChildren:
  "walkChildren S E children s = Inr s' \<Longrightarrow>
   stripAnchors (outputMarkup s') = stripAnchors (outputMarkup s) @ rowMarkup children"
proof (induction children arbitrary: s)
  case Nil
  then show ?case by (simp add: rowMarkup_def)
next
  case (Cons child children)
  from Cons.prems obtain cs where cs: "childNodeChars child = Inr cs"
    by (cases "childNodeChars child") auto
  then have m: "nodeMarkup child = cs" by (cases child) auto
  from Cons.prems cs have
    "walkChildren S E children
       (walkChars S E cs (s\<lparr>consumingSpan := False, annotating := False\<rparr>)) = Inr s'"
    by simp
  from Cons.IH [OF this] m show ?case
    by (simp add: stripAnchors_walkChars rowMarkup_def)
qed


text \<open>The specification's scenario, run through the renderer.\<close>

lemma fmt_starts:
  "fmtStarts = [0 \<mapsto> \<lparr>StartByte = 0, EndByte = 3, URL = Some (js ''/x/fmt'')\<rparr>,
                4 \<mapsto> \<lparr>StartByte = 4, EndByte = 11, URL = Some (js ''/x/Println'')\<rparr>]"
  by (simp add: fmtStarts_def fmtAnnotations_def)

lemma fmt_ends:
  "fmtEnds = [3 \<mapsto> \<lparr>StartByte = 0, EndByte = 3, URL = Some (js ''/x/fmt'')\<rparr>,
              11 \<mapsto> \<lparr>StartByte = 4, EndByte = 11, URL = Some (js ''/x/Println'')\<rparr>]"
  by (simp add: fmtEnds_def fmtAnnotations_def)

lemma fmt_row_rendered:
  "traverseRow fmtStarts fmtEnds fmtRow 0 initialState =
     Inr (15, \<lparr>consumingSpan = False, annotating = False, startByte = 14,
               outputMarkup = fmtMarkup\<rparr>)"
proof -
  have len: "utf8_length (js ''fmt.Println(x)'') = 14"
    by (subst utf8_length_ascii) (simp_all add: js_simps)
  show ?thesis
    by (simp add: traverseRow_def fmtRow_def fmtCell_def nth_opt_def textContent_def len)
       (simp add: js_simps initialState_def fmt_starts fmt_ends charStep_def nextChar_def
          utf8_length_single Let_def fmtMarkup_def)
qed

text \<open>The string assigned to \<^verbatim>\<open>innerHTML\<close> in the scenario.\<close>

lemma serialize_append: "serialize (ps @ qs) = serialize ps @ serialize qs"
  by (simp add: serialize_def)

lemma serialize_Raw: "serialize (map Raw cs) = cs"
  by (induction cs) (simp_all add: serialize_def)

lemma fmt_innerHTML:
  "serialize fmtMarkup =
     js ''<a href='https://sourcegraph.com/x/fmt?utm_source=chromeext&utm_medium=chromeext&utm_campaign=chromeext' target='tab' class='sgdef'>fmt</a>.<a href='https://sourcegraph.com/x/Println?utm_source=chromeext&utm_medium=chromeext&utm_campaign=chromeext' target='tab' class='sgdef'>Println</a>(x)''"
  by (simp add: fmtMarkup_def serialize_def jsToString_def js_simps)

lemma walkChars_Cons: "walkChars S E (c # cs) s = walkChars S E cs (charStep S E c (peek cs) s)"
  by (simp add: peek_def)

text \<open>A whole tag is copied as it is: nothing is counted, no anchor is touched.\<close>

lemma inside_tag_copied:
  assumes "consumingSpan s" and "chGt \<notin> set body"
  shows "walkChars S E (body @ chGt # rest) s =
           walkChars S E rest
             (s\<lparr>consumingSpan := False,
                outputMarkup := outputMarkup s @ map Raw (body @ [chGt])\<rparr>)"
  using assms
proof (induction body arbitrary: s)
  case Nil
  then show ?case by (simp add: walkChars_Cons charStep_markup del: walkChars.simps(2))
next
  case (Cons b body)
  let ?s1 = "s\<lparr>outputMarkup := outputMarkup s @ [Raw b]\<rparr>"
  from Cons.prems have step: "charStep S E b (peek (body @ chGt # rest)) s = ?s1"
    by (simp add: charStep_markup)
  from Cons.prems have "consumingSpan ?s1" and "chGt \<notin> set body" by simp_all
  from Cons.IH [OF this] step show ?case
    by (simp add: walkChars_Cons del: walkChars.simps(2))
qed

lemma tag_copied_verbatim:
  assumes "peek (body @ [chGt]) \<noteq> Some chSpace" and "chGt \<notin> set body"
  shows "walkChars S E (chLt # body @ chGt # rest) s =
           walkChars S E rest
             (s\<lparr>consumingSpan := False,
                outputMarkup := outputMarkup s @ map Raw (chLt # body @ [chGt])\<rparr>)"
proof -
  let ?s1 = "s\<lparr>consumingSpan := True, outputMarkup := outputMarkup s @ [Raw chLt]\<rparr>"
  from assms(1) have "peek (body @ chGt # rest) \<noteq> Some chSpace"
    by (cases body) (simp_all add: peek_def)
  then have step: "charStep S E chLt (peek (body @ chGt # rest)) s = ?s1"
    by (simp add: charStep_markup)
  have "consumingSpan ?s1" by simp
  from inside_tag_copied [OF this assms(2), of S E rest] step show ?thesis
    by (simp add: walkChars_Cons del: walkChars.simps(2))
qed

text \<open>What a visible character adds to the byte offset.\<close>

lemma utf8_length_single_pos: "0 < utf8_length [c]"
  by (simp add: utf8_length_single)

lemma charStep_startByte_mono: "startByte s \<le> startByte (charStep S E c nxt s)"
proof (cases "consumingSpan s \<or> (c = chLt \<and> nxt \<noteq> Some chSpace)")
  case True
  then show ?thesis by (simp add: charStep_markup)
next
  case False
  then show ?thesis by (simp add: charStep_plain)
qed

lemma visible_character_advance:
  assumes "\<not> consumingSpan s" and "\<not> (c = chLt \<and> nxt \<noteq> Some chSpace)"
  shows "startByte (charStep S E c nxt s) = startByte s + int (utf8_length [c])
         \<and> 1 \<le> utf8_length [c] \<and> utf8_length [c] \<le> 3
         \<and> Raw c \<in> set (outputMarkup (charStep S E c nxt s))
         \<and> (0x800 \<le> c \<longrightarrow> utf8_length [c] = 3)"
proof -
  have "Raw c \<in> set (fst (nextChar c k S E b))" for k b
    by (cases b) (auto simp: nextChar_def split: option.splits)
  with assms show ?thesis
    by (auto simp: charStep_plain utf8_length_single word_less_nat_alt word_le_nat_alt)
qed

text \<open>
  An entry of the start index matters only at its own offset, and the offset never
  decreases.
\<close>

lemma charStep_other_key:
  "startByte s \<noteq> N \<Longrightarrow> charStep (S(N := v)) E c nxt s = charStep S E c nxt s"
  by (simp add: charStep_def nextChar_def Let_def)

lemma walkChars_other_key:
  "N < startByte s \<Longrightarrow> walkChars (S(N := v)) E cs s = walkChars S E cs s"
proof (induction cs arbitrary: s)
  case Nil
  show ?case by simp
next
  case (Cons c cs)
  define nxt where "nxt = (case cs of [] \<Rightarrow> None | d # x \<Rightarrow> Some d)"
  from Cons.prems have k: "charStep (S(N := v)) E c nxt s = charStep S E c nxt s"
    by (simp add: charStep_other_key)
  from Cons.prems charStep_startByte_mono [of s S E c nxt]
  have "N < startByte (charStep S E c nxt s)" by simp
  then have ih: "walkChars (S(N := v)) E cs (charStep S E c nxt s)
                 = walkChars S E cs (charStep S E c nxt s)"
    by (rule Cons.IH)
  have "walkChars (S(N := v)) E (c # cs) s
          = walkChars (S(N := v)) E cs (charStep (S(N := v)) E c nxt s)"
    by (simp only: walkChars.simps nxt_def)
  also have "\<dots> = walkChars S E cs (charStep S E c nxt s)"
    by (simp only: k ih)
  also have "\<dots> = walkChars S E (c # cs) s"
    by (simp only: walkChars.simps nxt_def)
  finally show ?case .
qed

lemma walkChars_startByte_mono: "startByte s \<le> startByte (walkChars S E cs s)"
proof (induction cs arbitrary: s)
  case Nil
  show ?case by simp
next
  case (Cons c cs)
  have "startByte s \<le> startByte (charStep S E c (peek cs) s)"
    by (rule charStep_startByte_mono)
  also have "\<dots> \<le> startByte (walkChars S E cs (charStep S E c (peek cs) s))"
    by (rule Cons.IH)
  finally show ?case by (simp only: walkChars_Cons)
qed

lemma walkChildren_other_key:
  "N < startByte s \<Longrightarrow> walkChildren (S(N := v)) E children s = walkChildren S E children s"
proof (induction children arbitrary: s)
  case Nil
  show ?case by simp
next
  case (Cons child children)
  show ?case
  proof (cases "childNodeChars child")
    case (Inl e)
    then show ?thesis by simp
  next
    case (Inr cs)
    let ?s0 = "s\<lparr>consumingSpan := False, annotating := False\<rparr>"
    from Cons.prems have n: "N < startByte ?s0" by simp
    then have k: "walkChars (S(N := v)) E cs ?s0 = walkChars S E cs ?s0"
      by (rule walkChars_other_key)
    from n walkChars_startByte_mono [of ?s0 S E cs]
    have "N < startByte (walkChars S E cs ?s0)" by simp
    then have "walkChildren (S(N := v)) E children (walkChars S E cs ?s0)
               = walkChildren S E children (walkChars S E cs ?s0)"
      by (rule Cons.IH)
    with Inr k show ?thesis by (simp del: fun_upd_apply)
  qed
qed

text \<open>Closing anchors and the flag \<^verbatim>\<open>annotating\<close>.\<close>

lemma closesMatched_append:
  "closesMatched b (ps @ qs) = (closesMatched b ps \<and> closesMatched (openAfter b ps) qs)"
  by (induction b ps rule: closesMatched.induct) auto

lemma openAfter_append: "openAfter b (ps @ qs) = openAfter (openAfter b ps) qs"
  by (induction b ps rule: openAfter.induct) auto

lemma nextChar_matched:
  "closesMatched a (fst (nextChar c k S E a))
   \<and> openAfter a (fst (nextChar c k S E a)) = snd (nextChar c k S E a)"
  by (cases a) (auto simp: nextChar_def split: option.splits)

lemma charStep_output:
  "\<exists>new. outputMarkup (charStep S E c nxt s) = outputMarkup s @ new
     \<and> closesMatched (annotating s) new
     \<and> openAfter (annotating s) new = annotating (charStep S E c nxt s)"
proof (cases "consumingSpan s \<or> (c = chLt \<and> nxt \<noteq> Some chSpace)")
  case True
  then show ?thesis by (simp add: charStep_markup)
next
  case False
  then show ?thesis by (simp add: charStep_plain nextChar_matched)
qed

lemma walkChars_output:
  "\<exists>new. outputMarkup (walkChars S E cs s) = outputMarkup s @ new
     \<and> closesMatched (annotating s) new
     \<and> openAfter (annotating s) new = annotating (walkChars S E cs s)"
proof (induction cs arbitrary: s)
  case Nil
  show ?case by simp
next
  case (Cons c cs)
  define nxt where "nxt = (case cs of [] \<Rightarrow> None | d # x \<Rightarrow> Some d)"
  define s1 where "s1 = charStep S E c nxt s"
  obtain n1 where n1: "outputMarkup s1 = outputMarkup s @ n1"
      "closesMatched (annotating s) n1" "openAfter (annotating s) n1 = annotating s1"
    using charStep_output [of S E c nxt s] by (auto simp: s1_def)
  obtain n2 where n2: "outputMarkup (walkChars S E cs s1) = outputMarkup s1 @ n2"
      "closesMatched (annotating s1) n2"
      "openAfter (annotating s1) n2 = annotating (walkChars S E cs s1)"
    using Cons.IH [of s1] by auto
  have "walkChars S E (c # cs) s = walkChars S E cs s1"
    by (simp add: s1_def nxt_def)
  with n1 n2 show ?case
    by (intro exI [of _ "n1 @ n2"]) (simp add: closesMatched_append openAfter_append)
qed

lemma charStep_flag_cleared:
  assumes "annotating s" and "\<not> annotating (charStep S E c nxt s)"
  shows "E (startByte s + 1) \<noteq> None
         \<and> outputMarkup (charStep S E c nxt s) = outputMarkup s @ [Raw c, AnchorClose]"
proof (cases "consumingSpan s \<or> (c = chLt \<and> nxt \<noteq> Some chSpace)")
  case True
  with assms show ?thesis by (simp add: charStep_markup)
next
  case False
  with assms show ?thesis
    by (auto simp: charStep_plain nextChar_def split: if_splits)
qed

lemma charStep_flag_cleared_counts:
  assumes "annotating s" and "\<not> annotating (charStep S E c nxt s)"
  shows "startByte s < startByte (charStep S E c nxt s)"
proof (cases "consumingSpan s \<or> (c = chLt \<and> nxt \<noteq> Some chSpace)")
  case True
  with assms show ?thesis by (simp add: charStep_markup)
next
  case False
  with utf8_length_single_pos [of c] show ?thesis by (simp add: charStep_plain)
qed

lemma walkChildren_flags_reset:
  "children \<noteq> [] \<Longrightarrow>
   walkChildren S E children (s\<lparr>consumingSpan := b1, annotating := b2\<rparr>)
     = walkChildren S E children s"
  by (cases children) (simp_all split: sum.splits)

text \<open>
  A child node is rendered from its byte offset alone: what was emitted before it is a
  prefix that the walk never reads, and the flags are cleared when the child node is
  entered. So the markup of a cell is the concatenation of the markup of its child
  nodes, each rendered on its own, and in none of these pieces a closing anchor comes
  without an opening anchor before it.
\<close>

lemma charStep_frame:
  "charStep S E c nxt (s\<lparr>outputMarkup := p @ outputMarkup s\<rparr>)
     = (charStep S E c nxt s)\<lparr>outputMarkup := p @ outputMarkup (charStep S E c nxt s)\<rparr>"
proof (cases "consumingSpan s \<or> (c = chLt \<and> nxt \<noteq> Some chSpace)")
  case True
  then show ?thesis by (simp add: charStep_markup)
next
  case False
  then show ?thesis by (simp add: charStep_plain)
qed

lemma walkChars_frame:
  "walkChars S E cs (s\<lparr>outputMarkup := p @ outputMarkup s\<rparr>)
     = (walkChars S E cs s)\<lparr>outputMarkup := p @ outputMarkup (walkChars S E cs s)\<rparr>"
proof (induction cs arbitrary: s)
  case Nil
  show ?case by simp
next
  case (Cons c cs)
  have "walkChars S E (c # cs) (s\<lparr>outputMarkup := p @ outputMarkup s\<rparr>)
          = walkChars S E cs (charStep S E c (peek cs) (s\<lparr>outputMarkup := p @ outputMarkup s\<rparr>))"
    by (simp only: walkChars_Cons)
  also have "\<dots> = walkChars S E cs
       ((charStep S E c (peek cs) s)\<lparr>outputMarkup := p @ outputMarkup (charStep S E c (peek cs) s)\<rparr>)"
    by (simp only: charStep_frame)
  also have "\<dots> = (walkChars S E cs (charStep S E c (peek cs) s))
       \<lparr>outputMarkup := p @ outputMarkup (walkChars S E cs (charStep S E c (peek cs) s))\<rparr>"
    by (rule Cons.IH)
  finally show ?case by (simp only: walkChars_Cons)
qed

lemma walkChars_fresh:
  "walkChars S E cs (s\<lparr>consumingSpan := False, annotating := False\<rparr>)
     = (renderChild S E (startByte s) cs)
         \<lparr>outputMarkup := outputMarkup s @ outputMarkup (renderChild S E (startByte s) cs)\<rparr>"
proof -
  let ?f = "\<lparr>consumingSpan = False, annotating = False, startByte = startByte s,
             outputMarkup = []\<rparr>"
  have "s\<lparr>consumingSpan := False, annotating := False\<rparr>
          = ?f\<lparr>outputMarkup := outputMarkup s @ outputMarkup ?f\<rparr>"
    by (cases s) simp
  then show ?thesis
    unfolding renderChild_def by (simp only: walkChars_frame)
qed

lemma renderChild_matched: "closesMatched False (outputMarkup (renderChild S E k cs))"
  using walkChars_output
    [where S = S and E = E and cs = cs
       and s = "\<lparr>consumingSpan = False, annotating = False, startByte = k, outputMarkup = []\<rparr>"]
  by (auto simp: renderChild_def)

lemma childSegments_matched: "list_all (closesMatched False) (childSegments S E k css)"
  by (induction css arbitrary: k) (simp_all add: renderChild_matched)

lemma walkChildren_segments:
  "walkChildren S E children s = Inr s' \<Longrightarrow>
   outputMarkup s' = outputMarkup s
       @ concat (childSegments S E (startByte s) (map nodeMarkup children))
   \<and> startByte s' = childrenEnd S E (startByte s) (map nodeMarkup children)"
proof (induction children arbitrary: s)
  case Nil
  then show ?case by simp
next
  case (Cons child children)
  from Cons.prems obtain cs where cs: "childNodeChars child = Inr cs"
    by (cases "childNodeChars child") auto
  then have m: "nodeMarkup child = cs" by (cases child) auto
  define r where "r = renderChild S E (startByte s) cs"
  define s1 where "s1 = walkChars S E cs (s\<lparr>consumingSpan := False, annotating := False\<rparr>)"
  have s1: "outputMarkup s1 = outputMarkup s @ outputMarkup r" "startByte s1 = startByte r"
    by (simp_all add: s1_def r_def walkChars_fresh)
  from Cons.prems cs have "walkChildren S E children s1 = Inr s'"
    by (simp add: s1_def)
  from Cons.IH [OF this] s1 m show ?case
    by (simp add: r_def)
qed

lemma traverseRow_segments:
  assumes "traverseRow S E row count r = Inr (count', r')" and "nth_opt row 1 = Some code"
  shows "outputMarkup r' = concat (childSegments S E count (map nodeMarkup code))"
proof -
  from assms have
    "walkChildren S E code (r\<lparr>outputMarkup := [], startByte := count\<rparr>) = Inr r'"
    by (auto simp: traverseRow_def Let_def split: sum.splits)
  from walkChildren_segments [OF this] show ?thesis by simp
qed

text \<open>
  Between the opening and the closing of an annotation: while the end index has no entry
  at any of the keys consulted, the characters are copied and counted, and the tags are
  copied.
\<close>

lemma inside_annotation_items:
  assumes "annotating s" and "\<not> consumingSpan s" and "itemsOk items rest"
      and "\<forall>k \<in> set (endProbes (startByte s) items). E k = None"
  shows "walkChars S E (itemsChars items @ rest) s =
           walkChars S E rest
             (s\<lparr>outputMarkup := outputMarkup s @ map Raw (itemsChars items),
                startByte := startByte s + itemsBytes items\<rparr>)"
  using assms
proof (induction items arbitrary: s)
  case Nil
  then show ?case by (simp add: itemsChars_def itemsBytes_def)
next
  case (Cons i items)
  have b: "itemsBytes (i # items) = itemBytes i + itemsBytes items"
    by (simp add: itemsBytes_def)
  have ch: "itemsChars (i # items) = itemChars i @ itemsChars items"
    by (simp add: itemsChars_def)
  define s1 where "s1 = s\<lparr>outputMarkup := outputMarkup s @ map Raw (itemChars i),
                         startByte := startByte s + itemBytes i\<rparr>"
  have step: "walkChars S E (itemChars i @ itemsChars items @ rest) s
                = walkChars S E (itemsChars items @ rest) s1"
  proof (cases i)
    case (Visible c)
    with Cons.prems(3)
    have c: "\<not> (c = chLt \<and> peek (itemsChars items @ rest) \<noteq> Some chSpace)" by simp
    from Cons.prems(4) Visible have "E (startByte s + 1) = None" by simp
    with Cons.prems(1,2) c
    have "charStep S E c (peek (itemsChars items @ rest)) s = s1"
      by (simp add: charStep_plain nextChar_def s1_def Visible)
    then show ?thesis
      by (simp add: Visible walkChars_Cons del: walkChars.simps(2))
  next
    case (Tag body)
    with Cons.prems have ok: "peek (body @ [chGt]) \<noteq> Some chSpace" "chGt \<notin> set body"
      by simp_all
    have e: "s\<lparr>consumingSpan := False,
               outputMarkup := outputMarkup s @ map Raw (chLt # body @ [chGt])\<rparr> = s1"
      using Cons.prems(2) by (cases s) (simp add: s1_def Tag)
    from tag_copied_verbatim [OF ok, of S E "itemsChars items @ rest" s] e
    show ?thesis by (simp add: Tag)
  qed
  have 1: "annotating s1" and 2: "\<not> consumingSpan s1"
    using Cons.prems by (simp_all add: s1_def)
  have 3: "itemsOk items rest" using Cons.prems(3) by (cases i) simp_all
  have 4: "\<forall>k \<in> set (endProbes (startByte s1) items). E k = None"
    using Cons.prems(4) by (cases i) (simp_all add: s1_def)
  have fin: "s1\<lparr>outputMarkup := outputMarkup s1 @ map Raw (itemsChars items),
                startByte := startByte s1 + itemsBytes items\<rparr>
             = s\<lparr>outputMarkup := outputMarkup s @ map Raw (itemsChars (i # items)),
                  startByte := startByte s + itemsBytes (i # items)\<rparr>"
    by (simp add: s1_def ch b add.assoc)
  have "walkChars S E (itemsChars (i # items) @ rest) s
          = walkChars S E (itemsChars items @ rest) s1"
    using step by (simp only: ch append_assoc)
  also have "\<dots> = walkChars S E rest
       (s1\<lparr>outputMarkup := outputMarkup s1 @ map Raw (itemsChars items),
           startByte := startByte s1 + itemsBytes items\<rparr>)"
    by (rule Cons.IH [OF 1 2 3 4])
  finally show ?case by (simp only: fin)
qed

text \<open>
  Within a row the byte offset only grows, so an entry of the start index at an offset the
  walk has not passed yet plays no part in what is rendered before that offset is reached.
\<close>

lemma walkChars_before_key:
  "startByte (walkChars S E pre s) \<le> N \<Longrightarrow>
   walkChars (S(N := v)) E pre s = walkChars S E pre s"
proof (induction pre arbitrary: s)
  case Nil
  show ?case by simp
next
  case (Cons c pre)
  define s1 where "s1 = charStep S E c (peek pre) s"
  from Cons.prems have fin: "startByte (walkChars S E pre s1) \<le> N"
    by (simp only: walkChars_Cons s1_def)
  with walkChars_startByte_mono [of s1 S E pre] have le: "startByte s1 \<le> N" by simp
  have k: "charStep (S(N := v)) E c (peek pre) s = s1"
  proof (cases "consumingSpan s \<or> (c = chLt \<and> peek pre \<noteq> Some chSpace)")
    case True
    then show ?thesis by (simp add: charStep_markup s1_def)
  next
    case False
    then have "startByte s1 = startByte s + int (utf8_length [c])"
      by (simp add: s1_def charStep_plain)
    with le utf8_length_single_pos [of c] have "startByte s \<noteq> N" by simp
    then show ?thesis unfolding s1_def by (rule charStep_other_key)
  qed
  have "walkChars (S(N := v)) E (c # pre) s
          = walkChars (S(N := v)) E pre (charStep (S(N := v)) E c (peek pre) s)"
    by (simp only: walkChars_Cons)
  also have "\<dots> = walkChars S E pre s1"
    using Cons.IH [OF fin] by (simp only: k)
  also have "\<dots> = walkChars S E (c # pre) s"
    by (simp only: walkChars_Cons s1_def)
  finally show ?case .
qed

lemma walkChildren_startByte_mono:
  "walkChildren S E children s = Inr s' \<Longrightarrow> startByte s \<le> startByte s'"
proof (induction children arbitrary: s)
  case Nil
  then show ?case by simp
next
  case (Cons child children)
  from Cons.prems obtain cs where cs: "childNodeChars child = Inr cs"
    by (cases "childNodeChars child") auto
  let ?s0 = "s\<lparr>consumingSpan := False, annotating := False\<rparr>"
  from Cons.prems cs have "walkChildren S E children (walkChars S E cs ?s0) = Inr s'"
    by simp
  from Cons.IH [OF this] walkChars_startByte_mono [of ?s0 S E cs] show ?case by simp
qed

lemma walkChildren_before_key:
  "walkChildren S E prev s = Inr sp \<Longrightarrow> startByte sp \<le> N \<Longrightarrow>
   walkChildren (S(N := v)) E prev s = Inr sp"
proof (induction prev arbitrary: s)
  case Nil
  then show ?case by simp
next
  case (Cons child prev)
  from Cons.prems obtain cs where cs: "childNodeChars child = Inr cs"
    by (cases "childNodeChars child") auto
  let ?s0 = "s\<lparr>consumingSpan := False, annotating := False\<rparr>"
  from Cons.prems cs have r: "walkChildren S E prev (walkChars S E cs ?s0) = Inr sp"
    by simp
  from walkChildren_startByte_mono [OF r] Cons.prems(2)
  have "startByte (walkChars S E cs ?s0) \<le> N" by simp
  then have k: "walkChars (S(N := v)) E cs ?s0 = walkChars S E cs ?s0"
    by (rule walkChars_before_key)
  have "walkChildren (S(N := v)) E prev (walkChars S E cs ?s0) = Inr sp"
    by (rule Cons.IH [OF r Cons.prems(2)])
  with cs k show ?case by (simp del: fun_upd_apply)
qed

lemma walkChars_prefix:
  "walkChars S E (pre @ post) s = walkChars S E post (walkPrefix S E pre (peek post) s)"
proof (induction pre arbitrary: s)
  case Nil
  show ?case by simp
next
  case (Cons c pre)
  have p: "peek (pre @ post) = (case pre of [] \<Rightarrow> peek post | d # x \<Rightarrow> Some d)"
    by (cases pre) (simp_all add: peek_def)
  have "walkChars S E ((c # pre) @ post) s
          = walkChars S E (pre @ post) (charStep S E c (peek (pre @ post)) s)"
    by (simp only: append_Cons walkChars_Cons)
  also have "\<dots> = walkChars S E post
       (walkPrefix S E pre (peek post) (charStep S E c (peek (pre @ post)) s))"
    by (rule Cons.IH)
  finally show ?case by (simp only: p walkPrefix.simps)
qed

lemma walkPrefix_startByte_mono: "startByte s \<le> startByte (walkPrefix S E pre nxt s)"
proof (induction pre arbitrary: s)
  case Nil
  show ?case by simp
next
  case (Cons c pre)
  from charStep_startByte_mono [of s S E c "case pre of [] \<Rightarrow> nxt | d # x \<Rightarrow> Some d"]
    Cons.IH [of "charStep S E c (case pre of [] \<Rightarrow> nxt | d # x \<Rightarrow> Some d) s"]
  show ?case by simp
qed

lemma walkPrefix_before_key:
  "startByte (walkPrefix S E pre nxt s) \<le> N \<Longrightarrow>
   walkPrefix (S(N := v)) E pre nxt s = walkPrefix S E pre nxt s"
proof (induction pre arbitrary: s)
  case Nil
  show ?case by simp
next
  case (Cons c pre)
  define la where "la = (case pre of [] \<Rightarrow> nxt | d # x \<Rightarrow> Some d)"
  define s1 where "s1 = charStep S E c la s"
  from Cons.prems have fin: "startByte (walkPrefix S E pre nxt s1) \<le> N"
    by (simp add: s1_def la_def)
  with walkPrefix_startByte_mono [of s1 S E pre nxt] have le: "startByte s1 \<le> N" by simp
  have k: "charStep (S(N := v)) E c la s = s1"
  proof (cases "consumingSpan s \<or> (c = chLt \<and> la \<noteq> Some chSpace)")
    case True
    then show ?thesis by (simp add: charStep_markup s1_def)
  next
    case False
    then have "startByte s1 = startByte s + int (utf8_length [c])"
      by (simp add: s1_def charStep_plain)
    with le utf8_length_single_pos [of c] have "startByte s \<noteq> N" by simp
    then show ?thesis unfolding s1_def by (rule charStep_other_key)
  qed
  have "walkPrefix (S(N := v)) E (c # pre) nxt s
          = walkPrefix (S(N := v)) E pre nxt (charStep (S(N := v)) E c la s)"
    by (simp only: walkPrefix.simps la_def)
  also have "\<dots> = walkPrefix S E pre nxt s1"
    using Cons.IH [OF fin] by (simp only: k)
  also have "\<dots> = walkPrefix S E (c # pre) nxt s"
    by (simp only: walkPrefix.simps s1_def la_def)
  finally show ?case .
qed

lemma walkChildren_append:
  "walkChildren S E (prev @ later) s =
     (case walkChildren S E prev s of Inl e \<Rightarrow> Inl e | Inr sp \<Rightarrow> walkChildren S E later sp)"
  by (induction prev arbitrary: s) (simp_all split: sum.splits)

lemma walkPrefix_flag_cleared:
  "annotating s \<Longrightarrow> \<not> annotating (walkPrefix S E cs nxt s) \<Longrightarrow>
   \<exists>k. startByte s < k \<and> k \<le> startByte (walkPrefix S E cs nxt s) \<and> E k \<noteq> None"
proof (induction cs arbitrary: s)
  case Nil
  then show ?case by simp
next
  case (Cons c cs)
  define la where "la = (case cs of [] \<Rightarrow> nxt | d # x \<Rightarrow> Some d)"
  define s1 where "s1 = charStep S E c la s"
  have w: "walkPrefix S E (c # cs) nxt s = walkPrefix S E cs nxt s1"
    by (simp only: walkPrefix.simps s1_def la_def)
  have mono: "startByte s1 \<le> startByte (walkPrefix S E cs nxt s1)"
    by (rule walkPrefix_startByte_mono)
  show ?case
  proof (cases "annotating s1")
    case True
    note n = Cons.prems(2) [unfolded w]
    from Cons.IH [OF True n] obtain k where
      k: "startByte s1 < k" "k \<le> startByte (walkPrefix S E cs nxt s1)" "E k \<noteq> None"
      by blast
    from charStep_startByte_mono [of s S E c la] have "startByte s \<le> startByte s1"
      by (simp add: s1_def)
    with k show ?thesis unfolding w by (intro exI [of _ k]) simp
  next
    case False
    with Cons.prems(1) have e: "E (startByte s + 1) \<noteq> None"
      and lt: "startByte s < startByte s1"
      using charStep_flag_cleared [of s S E c la]
        charStep_flag_cleared_counts [of s S E c la]
      by (simp_all add: s1_def)
    from lt mono e show ?thesis unfolding w
      by (intro exI [of _ "startByte s + 1"]) simp
  qed
qed

text \<open>
  A one-byte annotation met with no annotation open, at the character \<open>c\<close> of a child
  node that holds the characters \<open>pre\<close>, \<open>c\<close> and \<open>cs\<close>, after the child nodes
  \<open>prev\<close> and before the child nodes \<open>rest\<close> of the row. The character is wrapped in a
  complete anchor and the flag stays unset. All other characters of the row are rendered
  as they would be with the annotation removed from the index: those of \<open>prev\<close> and
  \<open>pre\<close> before the character, those of \<open>cs\<close> and \<open>rest\<close> after it.
\<close>

lemma one_byte_annotation_once_in_row:
  assumes "childNodeChars child = Inr (pre @ c # cs)"
      and "walkChildren S E prev s0 = Inr sp"
      and "walkPrefix S E pre (Some c) (sp\<lparr>consumingSpan := False, annotating := False\<rparr>) = s"
      and "S (startByte s) = Some a" and "EndByte a - StartByte a = 1"
      and "\<not> annotating s"
      and "\<not> consumingSpan s" and "\<not> (c = chLt \<and> peek cs \<noteq> Some chSpace)"
  shows "charStep S E c (peek cs) s =
           s\<lparr>outputMarkup := outputMarkup s @ [AnchorOpen (URL a), Raw c, AnchorClose],
             startByte := startByte s + int (utf8_length [c])\<rparr>
         \<and> \<not> annotating (charStep S E c (peek cs) s)
         \<and> walkChildren S E (prev @ child # rest) s0 =
             walkChildren (S(startByte s := None)) E rest
               (walkChars (S(startByte s := None)) E cs (charStep S E c (peek cs) s))
         \<and> walkChildren (S(startByte s := None)) E prev s0 = Inr sp
         \<and> walkPrefix (S(startByte s := None)) E pre (Some c)
               (sp\<lparr>consumingSpan := False, annotating := False\<rparr>) = s"
proof -
  let ?sp0 = "sp\<lparr>consumingSpan := False, annotating := False\<rparr>"
  define s1 where "s1 = charStep S E c (peek cs) s"
  have step: "s1 =
           s\<lparr>outputMarkup := outputMarkup s @ [AnchorOpen (URL a), Raw c, AnchorClose],
             startByte := startByte s + int (utf8_length [c])\<rparr>"
    using assms(4-8) by (simp add: s1_def charStep_plain nextChar_def)
  from step assms(6) have na: "\<not> annotating s1" by simp
  have lt: "startByte s < startByte s1"
    using utf8_length_single_pos [of c] by (simp add: step)
  then have w: "walkChars (S(startByte s := None)) E cs s1 = walkChars S E cs s1"
    by (rule walkChars_other_key)
  from lt walkChars_startByte_mono [of s1 S E cs]
  have "startByte s < startByte (walkChars S E cs s1)" by simp
  then have after: "walkChildren (S(startByte s := None)) E rest (walkChars S E cs s1)
             = walkChildren S E rest (walkChars S E cs s1)"
    by (rule walkChildren_other_key)
  have "walkChars S E (pre @ c # cs) ?sp0 = walkChars S E (c # cs) s"
    using walkChars_prefix [of S E pre "c # cs" ?sp0] assms(3) by (simp add: peek_def)
  also have "\<dots> = walkChars S E cs s1"
    by (simp only: walkChars_Cons s1_def)
  finally have child: "walkChars S E (pre @ c # cs) ?sp0 = walkChars S E cs s1" .
  have "walkChildren S E (prev @ child # rest) s0 = walkChildren S E (child # rest) sp"
    by (simp add: walkChildren_append assms(2))
  also have "\<dots> = walkChildren S E rest (walkChars S E cs s1)"
    using assms(1) child by simp
  finally have row: "walkChildren S E (prev @ child # rest) s0 =
             walkChildren (S(startByte s := None)) E rest
               (walkChars (S(startByte s := None)) E cs s1)"
    by (simp only: w after)
  from assms(3) have "startByte (walkPrefix S E pre (Some c) ?sp0) \<le> startByte s" by simp
  then have pre: "walkPrefix (S(startByte s := None)) E pre (Some c) ?sp0 = s"
    using walkPrefix_before_key [of S E pre "Some c" ?sp0 "startByte s" None] assms(3)
    by (simp del: fun_upd_apply)
  from walkPrefix_startByte_mono [of ?sp0 S E pre "Some c"] assms(3)
  have "startByte sp \<le> startByte s" by simp
  with assms(2) have prev: "walkChildren (S(startByte s := None)) E prev s0 = Inr sp"
    by (rule walkChildren_before_key)
  from step na row prev pre show ?thesis
    unfolding s1_def by (simp del: fun_upd_apply)
qed

text \<open>
  Over a whole pass: the counter ends at the sum of the rows' contributions, every
  replacement scheduled holds the characters of its own row, and the values the two
  flags have when the pass starts change neither the replacements nor whether the pass
  completes.
\<close>

lemma pass_counter_total:
  "traverseRows S E rows i count s = (scheduled, Inr (count', s')) \<Longrightarrow>
   count' = count + sum_list (map (\<lambda>row. rowContribution (codeText row)) rows)"
proof (induction rows arbitrary: i count s scheduled)
  case Nil
  then show ?case by simp
next
  case (Cons row rows)
  from Cons.prems obtain c1 s1 where r: "traverseRow S E row count s = Inr (c1, s1)"
    by (cases "traverseRow S E row count s") auto
  then obtain code where code: "nth_opt row 1 = Some code"
    by (cases "nth_opt row 1") (auto simp: traverseRow_def)
  from r code have c1: "c1 = count + rowContribution (codeText row)"
    by (auto simp: traverseRow_def Let_def rowContribution_def utf8_length_def codeText_def
        split: sum.splits)
  from Cons.prems r obtain later where
    "traverseRows S E rows (Suc i) c1 s1 = (later, Inr (count', s'))"
    by (cases "traverseRows S E rows (Suc i) c1 s1") auto
  from Cons.IH [OF this] c1 show ?case by simp
qed

lemma traverseRow_strip:
  assumes "traverseRow S E row count s = Inr (count', s')"
  shows "\<exists>code. nth_opt row 1 = Some code \<and> stripAnchors (outputMarkup s') = rowMarkup code"
proof -
  from assms obtain code where code: "nth_opt row 1 = Some code"
    by (cases "nth_opt row 1") (auto simp: traverseRow_def)
  with assms have
    "walkChildren S E code (s\<lparr>outputMarkup := [], startByte := count\<rparr>) = Inr s'"
    by (auto simp: traverseRow_def Let_def split: sum.splits)
  from stripAnchors_walkChildren [OF this] code show ?thesis by simp
qed

lemma scheduled_markup_is_row_content:
  "(j, markup) \<in> set (fst (traverseRows S E rows i count s)) \<Longrightarrow>
   i \<le> j \<and> (\<exists>row code. nth_opt rows (j - i) = Some row \<and> nth_opt row 1 = Some code
                 \<and> stripAnchors markup = rowMarkup code)"
proof (induction rows arbitrary: i count s)
  case Nil
  then show ?case by simp
next
  case (Cons row rows)
  show ?case
  proof (cases "traverseRow S E row count s")
    case (Inl e)
    with Cons.prems show ?thesis by simp
  next
    case (Inr r)
    obtain c' s' where r: "r = (c', s')" by (cases r)
    obtain later res where l: "traverseRows S E rows (Suc i) c' s' = (later, res)"
      by (cases "traverseRows S E rows (Suc i) c' s'")
    from Cons.prems Inr r l have "(j, markup) = (i, outputMarkup s') \<or> (j, markup) \<in> set later"
      by simp
    then show ?thesis
    proof
      assume "(j, markup) = (i, outputMarkup s')"
      with traverseRow_strip [of S E row count s c' s'] Inr r show ?thesis
        by (auto simp: nth_opt_def)
    next
      assume "(j, markup) \<in> set later"
      with l have "(j, markup) \<in> set (fst (traverseRows S E rows (Suc i) c' s'))" by simp
      from Cons.IH [OF this] obtain row' code where
        j: "Suc i \<le> j" and n: "nth_opt rows (j - Suc i) = Some row'"
        and c: "nth_opt row' 1 = Some code" and m: "stripAnchors markup = rowMarkup code"
        by auto
      from j n have "nth_opt (row # rows) (j - i) = Some row'"
        by (auto simp: nth_opt_def Suc_diff_le split: if_splits)
      with j c m show ?thesis by auto
    qed
  qed
qed

lemma traverseRow_flags:
  "\<exists>b1' b2'. traverseRow S E row count (s\<lparr>consumingSpan := b1, annotating := b2\<rparr>) =
     (case traverseRow S E row count s of
        Inl e \<Rightarrow> Inl e
      | Inr (c', s') \<Rightarrow> Inr (c', s'\<lparr>consumingSpan := b1', annotating := b2'\<rparr>))"
proof (cases "nth_opt row 1")
  case None
  then show ?thesis by (simp add: traverseRow_def)
next
  case (Some code)
  show ?thesis
  proof (cases code)
    case Nil
    with Some show ?thesis
      by (intro exI [of _ b1] exI [of _ b2]) (simp add: traverseRow_def Let_def)
  next
    case (Cons child children)
    then have ne: "code \<noteq> []" by simp
    have st: "s\<lparr>consumingSpan := b1, annotating := b2, outputMarkup := [], startByte := count\<rparr>
        = (s\<lparr>outputMarkup := [], startByte := count\<rparr>)\<lparr>consumingSpan := b1, annotating := b2\<rparr>"
      by (cases s) simp
    have eq: "walkChildren S E code (s\<lparr>consumingSpan := b1, annotating := b2, outputMarkup := [], startByte := count\<rparr>)
        = walkChildren S E code (s\<lparr>outputMarkup := [], startByte := count\<rparr>)"
      unfolding st by (rule walkChildren_flags_reset [OF ne])
    show ?thesis
    proof (cases "walkChildren S E code (s\<lparr>outputMarkup := [], startByte := count\<rparr>)")
      case (Inl e)
      with Some eq show ?thesis by (simp add: traverseRow_def Let_def)
    next
      case (Inr s')
      with Some eq show ?thesis
        by (intro exI [of _ "consumingSpan s'"] exI [of _ "annotating s'"])
           (simp add: traverseRow_def Let_def)
    qed
  qed
qed

lemma initial_flags_irrelevant:
  "fst (traverseRows S E rows i count (s\<lparr>consumingSpan := b1, annotating := b2\<rparr>))
     = fst (traverseRows S E rows i count s)
   \<and> isl (snd (traverseRows S E rows i count (s\<lparr>consumingSpan := b1, annotating := b2\<rparr>)))
     = isl (snd (traverseRows S E rows i count s))"
proof (induction rows arbitrary: i count s b1 b2)
  case Nil
  show ?case by simp
next
  case (Cons row rows)
  obtain b1' b2' where f: "traverseRow S E row count (s\<lparr>consumingSpan := b1, annotating := b2\<rparr>) =
     (case traverseRow S E row count s of
        Inl e \<Rightarrow> Inl e
      | Inr (c', s') \<Rightarrow> Inr (c', s'\<lparr>consumingSpan := b1', annotating := b2'\<rparr>))"
    using traverseRow_flags
      [where S = S and E = E and row = row and count = count and s = s
         and ?b1.0 = b1 and ?b2.0 = b2]
    by blast
  show ?case
  proof (cases "traverseRow S E row count s")
    case (Inl e)
    with f show ?thesis by simp
  next
    case (Inr r)
    obtain c' s' where r: "r = (c', s')" by (cases r)
    obtain l1 r1 where a:
      "traverseRows S E rows (Suc i) c' (s'\<lparr>consumingSpan := b1', annotating := b2'\<rparr>) = (l1, r1)"
      by (cases "traverseRows S E rows (Suc i) c' (s'\<lparr>consumingSpan := b1', annotating := b2'\<rparr>)")
    obtain l2 r2 where b: "traverseRows S E rows (Suc i) c' s' = (l2, r2)"
      by (cases "traverseRows S E rows (Suc i) c' s'")
    from Cons.IH [where i = "Suc i" and count = c' and s = s' and ?b1.0 = b1' and ?b2.0 = b2']
      a b
    have "l1 = l2" and "isl r1 = isl r2" by simp_all
    with f Inr r a b show ?thesis by simp
  qed
qed

text \<open>The example cells.\<close>

lemma ab_starts: "abStarts = [0 \<mapsto> \<lparr>StartByte = 0, EndByte = 2, URL = Some (js ''/x/ab'')\<rparr>]"
  by (simp add: abStarts_def abAnnotations_def)

lemma ab_ends: "abEnds = [2 \<mapsto> \<lparr>StartByte = 0, EndByte = 2, URL = Some (js ''/x/ab'')\<rparr>]"
  by (simp add: abEnds_def abAnnotations_def)

lemma ab_render_a:
  "renderChild abStarts abEnds 0 (js ''a'') =
     \<lparr>consumingSpan = False, annotating = True, startByte = 1,
      outputMarkup = [AnchorOpen (Some (js ''/x/ab'')), Raw 0x61]\<rparr>"
  by (simp add: renderChild_def ab_starts ab_ends js_simps charStep_def nextChar_def
      utf8_length_single Let_def)

lemma ab_render_b:
  "renderChild abStarts abEnds 1 (js ''b'') =
     \<lparr>consumingSpan = False, annotating = False, startByte = 2,
      outputMarkup = [Raw 0x62]\<rparr>"
  by (simp add: renderChild_def ab_starts ab_ends js_simps charStep_def nextChar_def
      utf8_length_single Let_def)

lemma ab_text_cell_rendered:
  "walkChildren abStarts abEnds abTextCell initialState =
     Inr \<lparr>consumingSpan = False, annotating = False, startByte = 2,
          outputMarkup = [AnchorOpen (Some (js ''/x/ab'')), Raw 0x61, Raw 0x62]\<rparr>"
  by (simp add: abTextCell_def ab_starts ab_ends initialState_def js_simps charStep_def
      nextChar_def utf8_length_single Let_def)

lemma ab_text_length: "utf8_length (textContent abTextCell) = 2"
  by (subst utf8_length_ascii) (simp_all add: textContent_def abTextCell_def js_simps)

lemma ab_row_rendered:
  "traverseRow abStarts abEnds [[], abTextCell] 0 abOpenState =
     Inr (3, \<lparr>consumingSpan = False, annotating = False, startByte = 2,
              outputMarkup = [AnchorOpen (Some (js ''/x/ab'')), Raw 0x61, Raw 0x62]\<rparr>)"
  by (simp add: traverseRow_def nth_opt_def ab_text_length)
     (simp add: abTextCell_def textContent_def ab_starts ab_ends abOpenState_def js_simps charStep_def nextChar_def
        utf8_length_single Let_def)

lemma amp_text_length: "utf8_length (js ''&&'') = 2"
  by (subst utf8_length_ascii) (simp_all add: js_simps)

lemma abc_text_length: "utf8_length (js ''abc'') = 3"
  by (subst utf8_length_ascii) (simp_all add: js_simps)

lemma println_items:
  "itemsChars (map Visible (js ''rintl'')) = js ''rintl''"
  "itemsBytes (map Visible (js ''rintl'')) = 5"
  "endProbes 5 (map Visible (js ''rintl'')) = [6, 7, 8, 9, 10]"
  by (simp_all add: itemsChars_def itemsBytes_def js_simps utf8_length_single)

lemma fmt_prefix_walked:
  "walkPrefix fmtStarts fmtEnds (js ''fmt.'') (Some 0x50) initialState = fmtDotState"
  by (simp add: fmt_starts fmt_ends initialState_def fmtDotState_def js_simps charStep_def
      nextChar_def utf8_length_single Let_def)

text \<open>Splitting a file name at its dots.\<close>

lemma split_nonempty: "split sep s \<noteq> []"
  by (induction s) (auto split: list.splits)

lemma split_no_separator: "sep \<notin> set s \<Longrightarrow> split sep s = [s]"
  by (induction s) auto

lemma split_two: "sep \<in> set s \<Longrightarrow> \<exists>w v vs. split sep s = w # v # vs"
proof (induction s)
  case Nil
  then show ?case by simp
next
  case (Cons c s)
  show ?case
  proof (cases "c = sep")
    case True
    then show ?thesis
      using split_nonempty [of sep s] by (cases "split sep s") auto
  next
    case False
    with Cons.prems have "sep \<in> set s" by simp
    from Cons.IH [OF this] False show ?thesis by auto
  qed
qed

lemma last_split: "sep \<notin> set ext \<Longrightarrow> last (split sep (base @ sep # ext)) = ext"
proof (induction base)
  case Nil
  then show ?case by (simp add: split_no_separator)
next
  case (Cons c base)
  obtain w v vs where s: "split sep (base @ sep # ext) = w # v # vs"
    using split_two [of sep "base @ sep # ext"] by auto
  with Cons show ?case by auto
qed

text \<open>The pipeline on the example pages.\<close>

lemma fmt_index: "indexAnnotations fmtAnnotations (Map.empty, Map.empty) = (fmtStarts, fmtEnds)"
  by (simp add: fmtStarts_def fmtEnds_def)

lemma go_url_split:
  "split chSlash (js ''https://github.com/golang/go/blob/master/src/fmt/print.go'') =
     [js ''https:'', [], js ''github.com'', js ''golang'', js ''go'', js ''blob'', js ''master'',
      js ''src'', js ''fmt'', js ''print.go'']"
  by (simp add: js_simps)

lemma go_permalink_split:
  "split chSlash (js ''https://github.com/golang/go/blob/0123abcd/src/fmt/print.go'') =
     [js ''https:'', [], js ''github.com'', js ''golang'', js ''go'', js ''blob'', js ''0123abcd'',
      js ''src'', js ''fmt'', js ''print.go'']"
  by (simp add: js_simps)

lemma go_extension: "fileExtension (js ''print.go'') = js ''go''"
  by (simp add: fileExtension_def js_simps toLowerCase_def lowerChar_def)

lemma readme_extension: "fileExtension (js ''README.md'') = js ''md''"
  by (simp add: fileExtension_def js_simps toLowerCase_def lowerChar_def)

lemma go_table_rendered:
  "traverseDOM goPage fmtStarts fmtEnds = ([ReplaceCell 0 fmtMarkup], None)"
  by (simp add: traverseDOM_def goPage_def fmt_row_rendered)

lemma go_page_fields:
  "docURL goPage = js ''https://github.com/golang/go/blob/master/src/fmt/print.go''"
  "hasFile goPage" "blobWrapper goPage" "\<not> visPrivate goPage"
  "finalPath goPage = Some (js ''print.go'')"
  "permalinkHref goPage = Some (js ''https://github.com/golang/go/blob/0123abcd/src/fmt/print.go'')"
  by (simp_all add: goPage_def)

lemma private_go_page_fields:
  "visPrivate privateGoPage" "blobWrapper privateGoPage"
  "finalPath privateGoPage = Some (js ''print.go'')"
  by (simp_all add: privateGoPage_def goPage_def)

lemma go_getAnnotations:
  assumes "annotationsReply sv = Done (Some fmtAnnotations)" and "token rq = None"
  shows "getAnnotations goPage sv rq = ([AnnotationsRequest rq, ReplaceCell 0 fmtMarkup], None)"
  using assms
  by (simp add: getAnnotations_def getSourcegraphRefLinks_def fmt_index go_table_rendered
      prepend_def btoaAccepts_def jsToString_def js_simps)

lemma go_checkLatestCommit:
  assumes "annotationsReply sv = Done (Some fmtAnnotations)"
  shows "checkLatestCommit goPage sv None =
     ([VersionRequest (goRequest None), AnnotationsRequest (goRequest None),
       ReplaceCell 0 fmtMarkup], None)"
proof -
  have b: "btoaAccepts None"
    by (simp add: btoaAccepts_def jsToString_def js_simps)
  have v: "versionHandlers (versionReply sv) = []"
    by (simp add: versionHandlers_def split: ajax.splits)
  show ?thesis
    by (simp add: checkLatestCommit_def Let_def go_page_fields go_url_split go_permalink_split
        nth_opt_def urlPath_def go_getAnnotations [OF assms] b v goRequest_def jsToString_def)
       (simp add: js_simps)
qed

text \<open>
  The reply to the version request has no effect on a run: neither of its handlers does
  anything.
\<close>

lemma version_reply_never_consulted:
  "mainCall p (sv\<lparr>versionReply := r\<rparr>) = mainCall p sv"
proof -
  have v: "versionHandlers x = []" for x
    by (simp add: versionHandlers_def split: ajax.splits)
  have g: "getAnnotations p (sv\<lparr>versionReply := r\<rparr>) rq = getAnnotations p sv rq" for rq
    by (simp add: getAnnotations_def)
  have c: "checkLatestCommit p (sv\<lparr>versionReply := r\<rparr>) tok = checkLatestCommit p sv tok" for tok
    by (simp add: checkLatestCommit_def Let_def g v split: option.splits sum.splits)
  have a: "getAuthToken p (sv\<lparr>versionReply := r\<rparr>) = getAuthToken p sv"
    by (simp add: getAuthToken_def authHandler_def c split: option.splits ajax.splits)
  show ?thesis by (simp add: mainCall_def a c split: option.splits)
qed

lemma no_token_without_auth:
  assumes "visPrivate p" and "authReply sv = Fail"
  shows "mainCall p sv = ([], None) \<or> mainCall p sv = ([ListenClicks], None)
         \<or> mainCall p sv = ([ListenClicks], Some TypeError)
         \<or> mainCall p sv = ([ListenClicks, AuthRequest], None)"
  using assms
  by (auto simp: mainCall_def getAuthToken_def prepend_def split: option.splits)

section \<open>The claims\<close>

text \<open>
  C1. The claim: if the version request fails, the annotation request is never sent and
  the document is not changed. The script does otherwise. Line 99 hands to
  \<^verbatim>\<open>done\<close> the value of the call \<^verbatim>\<open>getAnnotations(...)\<close>, so the annotation
  request is sent while the version request is being set up, whatever its reply will be.
  On the example page, with a version request that fails and an annotation request that
  succeeds, both requests are sent and the row is rewritten.
\<close>

theorem failed_version_gate_still_fetches_and_renders:
  "mainCall goPage \<lparr>authReply = Fail, versionReply = Fail,
                     annotationsReply = Done (Some fmtAnnotations)\<rparr> =
     ([ListenClicks, VersionRequest (goRequest None), AnnotationsRequest (goRequest None),
       ReplaceCell 0 fmtMarkup], None)"
  by (simp add: mainCall_def go_page_fields go_extension go_checkLatestCommit prepend_def)

text \<open>
  C2, as the code has it. Both flags are set to false at the start of every child node.
  A child node is therefore rendered as \<open>renderChild\<close> renders it, from flags that are
  false and from the byte offset reached, whatever values the flags had after the child
  node before it; and the markup of a cell is the concatenation of the markup its child
  nodes give when each is rendered in this way; so is the markup of a row, whatever
  the flags were when the row was entered. Within a child node the flag
  \<^verbatim>\<open>annotating\<close>, once set, becomes false only in the step where the end index has an
  entry at the current offset plus one, and that step emits the closing anchor; if the
  flag is set at some point of a child node and unset after some more of its characters
  (\<open>us\<close>, followed by \<open>la\<close>), the end index has an entry at an offset passed in
  between. So in
  the markup of each child node no closing anchor comes without an opening anchor before
  it in the same child node: an annotation opened in one child node is never closed in
  a later one.
\<close>

theorem both_flags_reset_per_child:
  "(childNodeChars child = Inr cs \<longrightarrow>
      walkChildren S E (child # later) s =
        walkChildren S E later
          ((renderChild S E (startByte s) cs)
             \<lparr>outputMarkup := outputMarkup s @ outputMarkup (renderChild S E (startByte s) cs)\<rparr>))
   \<and> (walkChildren S E children s0 = Inr s' \<longrightarrow>
        outputMarkup s' = outputMarkup s0
            @ concat (childSegments S E (startByte s0) (map nodeMarkup children))
        \<and> startByte s' = childrenEnd S E (startByte s0) (map nodeMarkup children)
        \<and> list_all (closesMatched False)
             (childSegments S E (startByte s0) (map nodeMarkup children)))
   \<and> (traverseRow S E row count r = Inr (count', r') \<and> nth_opt row 1 = Some code \<longrightarrow>
        outputMarkup r' = concat (childSegments S E count (map nodeMarkup code)))
   \<and> (annotating t \<and> \<not> annotating (charStep S E c nxt t) \<longrightarrow>
        E (startByte t + 1) \<noteq> None
        \<and> outputMarkup (charStep S E c nxt t) = outputMarkup t @ [Raw c, AnchorClose])
   \<and> (annotating u \<and> \<not> annotating (walkPrefix S E us la u) \<longrightarrow>
        (\<exists>k. startByte u < k \<and> k \<le> startByte (walkPrefix S E us la u) \<and> E k \<noteq> None))"
proof -
  have 1: "childNodeChars child = Inr cs \<longrightarrow>
      walkChildren S E (child # later) s =
        walkChildren S E later
          ((renderChild S E (startByte s) cs)
             \<lparr>outputMarkup := outputMarkup s @ outputMarkup (renderChild S E (startByte s) cs)\<rparr>)"
    by (simp add: walkChars_fresh)
  have 2: "walkChildren S E children s0 = Inr s' \<longrightarrow>
        outputMarkup s' = outputMarkup s0
            @ concat (childSegments S E (startByte s0) (map nodeMarkup children))
        \<and> startByte s' = childrenEnd S E (startByte s0) (map nodeMarkup children)
        \<and> list_all (closesMatched False)
             (childSegments S E (startByte s0) (map nodeMarkup children))"
    using walkChildren_segments [of S E children s0 s'] childSegments_matched by blast
  have 3: "traverseRow S E row count r = Inr (count', r') \<and> nth_opt row 1 = Some code \<longrightarrow>
        outputMarkup r' = concat (childSegments S E count (map nodeMarkup code))"
    using traverseRow_segments [of S E row count r count' r' code] by blast
  have 4: "annotating t \<and> \<not> annotating (charStep S E c nxt t) \<longrightarrow>
        E (startByte t + 1) \<noteq> None
        \<and> outputMarkup (charStep S E c nxt t) = outputMarkup t @ [Raw c, AnchorClose]"
    using charStep_flag_cleared [of t S E c nxt] by blast
  have 5: "annotating u \<and> \<not> annotating (walkPrefix S E us la u) \<longrightarrow>
        (\<exists>k. startByte u < k \<and> k \<le> startByte (walkPrefix S E us la u) \<and> E k \<noteq> None)"
    using walkPrefix_flag_cleared [of u S E us la] by blast
  from 1 2 3 4 5 show ?thesis by blast
qed

text \<open>
  The parts at work on the annotation of \<^verbatim>\<open>ab\<close>, with \<^verbatim>\<open>a\<close> and \<^verbatim>\<open>b\<close> in two text
  nodes: the second node is entered with the flag set and rendered with the flag
  cleared, the markup of the cell is made of the markup of its two child nodes, also
  when the row is entered with the flag set, and within a child node the end-boundary
  match at offset 1 clears the flag and emits the closing anchor.
\<close>

theorem both_flags_reset_per_child_witness:
  "childNodeChars (TextNode (js ''b'')) = Inr (js ''b'')
   \<and> walkChildren abStarts abEnds [TextNode (js ''b'')] abOpenState =
       Inr \<lparr>consumingSpan = False, annotating = False, startByte = 2,
            outputMarkup = [AnchorOpen (Some (js ''/x/ab'')), Raw 0x61, Raw 0x62]\<rparr>
   \<and> walkChildren abStarts abEnds abTextCell initialState =
       Inr \<lparr>consumingSpan = False, annotating = False, startByte = 2,
            outputMarkup = [AnchorOpen (Some (js ''/x/ab'')), Raw 0x61, Raw 0x62]\<rparr>
   \<and> childSegments abStarts abEnds 0 (map nodeMarkup abTextCell) =
       [[AnchorOpen (Some (js ''/x/ab'')), Raw 0x61], [Raw 0x62]]
   \<and> childrenEnd abStarts abEnds 0 (map nodeMarkup abTextCell) = 2
   \<and> list_all (closesMatched False)
       [[AnchorOpen (Some (js ''/x/ab'')), Raw 0x61], [Raw 0x62]]
   \<and> traverseRow abStarts abEnds [[], abTextCell] 0 abOpenState =
       Inr (3, \<lparr>consumingSpan = False, annotating = False, startByte = 2,
                outputMarkup = [AnchorOpen (Some (js ''/x/ab'')), Raw 0x61, Raw 0x62]\<rparr>)
   \<and> nth_opt [[], abTextCell] 1 = Some abTextCell
   \<and> concat (childSegments abStarts abEnds 0 (map nodeMarkup abTextCell)) =
       [AnchorOpen (Some (js ''/x/ab'')), Raw 0x61, Raw 0x62]
   \<and> annotating abOpenState
   \<and> \<not> annotating (charStep abStarts abEnds 0x62 None abOpenState)
   \<and> abEnds (startByte abOpenState + 1) \<noteq> None
   \<and> outputMarkup (charStep abStarts abEnds 0x62 None abOpenState)
       = outputMarkup abOpenState @ [Raw 0x62, AnchorClose]
   \<and> \<not> annotating (walkPrefix abStarts abEnds (js ''b'') None abOpenState)
   \<and> (\<exists>k. startByte abOpenState < k
          \<and> k \<le> startByte (walkPrefix abStarts abEnds (js ''b'') None abOpenState)
          \<and> abEnds k \<noteq> None)"
proof -
  note w = both_flags_reset_per_child
    [where child = "TextNode (js ''b'')" and cs = "js ''b''" and later = "[]"
       and s = abOpenState and S = abStarts and E = abEnds
       and children = abTextCell and ?s0.0 = initialState
       and s' = "\<lparr>consumingSpan = False, annotating = False, startByte = 2,
            outputMarkup = [AnchorOpen (Some (js ''/x/ab'')), Raw 0x61, Raw 0x62]\<rparr>"
       and row = "[[], abTextCell]" and count = 0 and r = abOpenState and count' = 3
       and r' = "\<lparr>consumingSpan = False, annotating = False, startByte = 2,
            outputMarkup = [AnchorOpen (Some (js ''/x/ab'')), Raw 0x61, Raw 0x62]\<rparr>"
       and code = abTextCell
       and t = abOpenState and c = "0x62" and nxt = None
       and u = abOpenState and us = "js ''b''" and la = None]
  have n: "childNodeChars (TextNode (js ''b'')) = Inr (js ''b'')" by simp
  have st: "startByte abOpenState = 1" by (simp add: abOpenState_def)
  have a: "walkChildren abStarts abEnds [TextNode (js ''b'')] abOpenState =
       Inr \<lparr>consumingSpan = False, annotating = False, startByte = 2,
            outputMarkup = [AnchorOpen (Some (js ''/x/ab'')), Raw 0x61, Raw 0x62]\<rparr>"
    using w [THEN conjunct1, rule_format, OF n]
    by (simp only: st ab_render_b) (simp add: abOpenState_def)
  have segs: "childSegments abStarts abEnds 0 (map nodeMarkup abTextCell) =
       [[AnchorOpen (Some (js ''/x/ab'')), Raw 0x61], [Raw 0x62]]"
    by (simp add: abTextCell_def ab_render_a ab_render_b)
  have en: "childrenEnd abStarts abEnds 0 (map nodeMarkup abTextCell) = 2"
    by (simp add: abTextCell_def ab_render_a ab_render_b)
  have i: "startByte initialState = 0" by (simp add: initialState_def)
  have m: "list_all (closesMatched False)
       [[AnchorOpen (Some (js ''/x/ab'')), Raw 0x61], [Raw 0x62]]"
    using w [THEN conjunct2, THEN conjunct1, rule_format, OF ab_text_cell_rendered]
    by (simp only: i segs)
  have cell: "nth_opt [[], abTextCell] 1 = Some abTextCell" by (simp add: nth_opt_def)
  have rowm: "concat (childSegments abStarts abEnds 0 (map nodeMarkup abTextCell)) =
       [AnchorOpen (Some (js ''/x/ab'')), Raw 0x61, Raw 0x62]"
    using w [THEN conjunct2, THEN conjunct2, THEN conjunct1] ab_row_rendered cell
    by simp
  have o: "annotating abOpenState" by (simp add: abOpenState_def)
  have c: "\<not> annotating (charStep abStarts abEnds 0x62 None abOpenState)"
    by (simp add: abOpenState_def ab_starts ab_ends charStep_def nextChar_def Let_def)
  from w [THEN conjunct2, THEN conjunct2, THEN conjunct2, THEN conjunct1] o c
  have e: "abEnds (startByte abOpenState + 1) \<noteq> None
     \<and> outputMarkup (charStep abStarts abEnds 0x62 None abOpenState)
         = outputMarkup abOpenState @ [Raw 0x62, AnchorClose]"
    by blast
  have d: "\<not> annotating (walkPrefix abStarts abEnds (js ''b'') None abOpenState)"
    by (simp add: abOpenState_def ab_starts ab_ends js_simps charStep_def nextChar_def
        Let_def)
  from w [THEN conjunct2, THEN conjunct2, THEN conjunct2, THEN conjunct2] o d
  have f: "\<exists>k. startByte abOpenState < k
          \<and> k \<le> startByte (walkPrefix abStarts abEnds (js ''b'') None abOpenState)
          \<and> abEnds k \<noteq> None"
    by blast
  from n a ab_text_cell_rendered segs en m ab_row_rendered cell rowm o c e d f
  show ?thesis by blast
qed

text \<open>
  C2 as stated fails. The annotation covers bytes 0 to 2 and the cell holds \<^verbatim>\<open>a\<close> and
  \<^verbatim>\<open>b\<close> in two text nodes. After the first node the flag is set; the second node
  starts with the flag cleared, although no end boundary was met, and the \<^verbatim>\<open>b\<close> at
  offset 1 is emitted without a closing anchor although the end index has an entry
  at 2.
\<close>

theorem open_flag_does_not_persist_counterexample:
  "annotating (walkChars abStarts abEnds (js ''a'') initialState)
   \<and> abEnds 2 \<noteq> None
   \<and> walkChildren abStarts abEnds abTextCell initialState =
       Inr \<lparr>consumingSpan = False, annotating = False, startByte = 2,
            outputMarkup = [AnchorOpen (Some (js ''/x/ab'')), Raw 0x61, Raw 0x62]\<rparr>"
  by (simp add: abTextCell_def ab_starts ab_ends initialState_def js_simps charStep_def
      nextChar_def utf8_length_single Let_def)




text \<open>
  C4. For every row, the byte counter \<^verbatim>\<open>count\<close> grows by the sum of the UTF-8 byte
  lengths of the characters of the row's text plus one byte for the newline, and by
  that sum alone when the row's text is exactly a lone newline.
\<close>

theorem row_counter_contribution:
  assumes "traverseRow S E row count s = Inr (count', s')"
      and "nth_opt row 1 = Some code"
  shows "count' - count = rowContribution (textContent code)"
  using assms
  by (auto simp: traverseRow_def Let_def rowContribution_def utf8_length_def
      split: sum.splits)

theorem row_counter_contribution_witness:
  "traverseRow fmtStarts fmtEnds fmtRow 0 initialState =
     Inr (15, \<lparr>consumingSpan = False, annotating = False, startByte = 14,
               outputMarkup = fmtMarkup\<rparr>)
   \<and> nth_opt fmtRow 1 = Some fmtCell
   \<and> rowContribution (textContent fmtCell) = 15"
proof -
  have c: "nth_opt fmtRow 1 = Some fmtCell"
    by (simp add: nth_opt_def fmtRow_def)
  from row_counter_contribution [OF fmt_row_rendered c] fmt_row_rendered c
  show ?thesis by simp
qed

text \<open>
  C5, as the code has it. Let an annotation from byte \<open>N\<close> to byte \<open>M\<close>, more than
  one byte long, be in the index, and let the character \<open>c\<close> at offset \<open>N\<close> and the
  character \<open>d\<close> at offset \<open>M - 1\<close> lie in the same child node, with the characters
  and tags \<open>mid\<close> between them. If no annotation is open when \<open>c\<close> is reached, and the
  end index has no entry at the offset plus one of a character counted between the two,
  then the renderer emits the opening anchor immediately before \<open>c\<close> and sets the flag,
  copies what lies between, and emits the closing anchor immediately after \<open>d\<close> and
  clears the flag. The last part says the same of the walk over a cell whose first child
  node holds the characters \<open>pre\<close> before \<open>c\<close>: the walk goes on with the characters
  \<open>rest\<close> and the child nodes \<open>later\<close> after the annotation has been wrapped.
\<close>

theorem multi_byte_annotation_open_close:
  assumes "S N = Some a" and "StartByte a = N" and "EndByte a = M" and "M - N > 1"
      and "E M \<noteq> None"
      and "\<not> consumingSpan s" and "\<not> annotating s" and "startByte s = N"
      and "\<not> (c = chLt \<and> peek (itemsChars mid @ d # rest) \<noteq> Some chSpace)"
      and "itemsOk mid (d # rest)"
      and "\<not> (d = chLt \<and> peek rest \<noteq> Some chSpace)"
      and "N + int (utf8_length [c]) + itemsBytes mid + 1 = M"
      and "\<forall>k \<in> set (endProbes (N + int (utf8_length [c])) mid). E k = None"
  shows "charStep S E c (peek (itemsChars mid @ d # rest)) s =
           s\<lparr>outputMarkup := outputMarkup s @ [AnchorOpen (URL a), Raw c],
             annotating := True,
             startByte := N + int (utf8_length [c])\<rparr>
         \<and> walkChars S E (c # itemsChars mid @ d # rest) s =
             walkChars S E rest
               (s\<lparr>outputMarkup :=
                    outputMarkup s @ [AnchorOpen (URL a), Raw c] @ map Raw (itemsChars mid)
                      @ [Raw d, AnchorClose],
                  annotating := False,
                  startByte := M - 1 + int (utf8_length [d])\<rparr>)
         \<and> (childNodeChars child = Inr (pre @ c # itemsChars mid @ d # rest)
              \<and> walkPrefix S E pre (Some c)
                    (s0\<lparr>consumingSpan := False, annotating := False\<rparr>) = s
            \<longrightarrow> walkChildren S E (child # later) s0 =
                  walkChildren S E later
                    (walkChars S E rest
                       (s\<lparr>outputMarkup :=
                            outputMarkup s @ [AnchorOpen (URL a), Raw c]
                              @ map Raw (itemsChars mid) @ [Raw d, AnchorClose],
                          annotating := False,
                          startByte := M - 1 + int (utf8_length [d])\<rparr>)))"
proof -
  define s1 where "s1 = s\<lparr>outputMarkup := outputMarkup s @ [AnchorOpen (URL a), Raw c],
               annotating := True,
               startByte := N + int (utf8_length [c])\<rparr>"
  define s2 where "s2 = s1\<lparr>outputMarkup := outputMarkup s1 @ map Raw (itemsChars mid),
                 startByte := startByte s1 + itemsBytes mid\<rparr>"
  define s3 where "s3 = s\<lparr>outputMarkup :=
                    outputMarkup s @ [AnchorOpen (URL a), Raw c] @ map Raw (itemsChars mid)
                      @ [Raw d, AnchorClose],
                  annotating := False,
                  startByte := M - 1 + int (utf8_length [d])\<rparr>"
  from assms(1-4,6-9) have step1: "charStep S E c (peek (itemsChars mid @ d # rest)) s = s1"
    by (simp add: charStep_plain nextChar_def s1_def)
  have 1: "annotating s1" and 2: "\<not> consumingSpan s1"
    using assms(6) by (simp_all add: s1_def)
  have 4: "\<forall>k \<in> set (endProbes (startByte s1) mid). E k = None"
    using assms(13) by (simp add: s1_def)
  have mid: "walkChars S E (itemsChars mid @ d # rest) s1 = walkChars S E (d # rest) s2"
    unfolding s2_def by (rule inside_annotation_items [OF 1 2 assms(10) 4])
  have f: "annotating s2" "\<not> consumingSpan s2" "startByte s2 + 1 = M"
    using assms(6,12) by (simp_all add: s2_def s1_def)
  from f(3) assms(5) have e: "E (startByte s2 + 1) \<noteq> None" by simp
  from f(1,2) e assms(11) have step2: "charStep S E d (peek rest) s2 =
      s2\<lparr>outputMarkup := outputMarkup s2 @ [Raw d, AnchorClose], annotating := False,
         startByte := startByte s2 + int (utf8_length [d])\<rparr>"
    by (auto simp: charStep_plain nextChar_def)
  have fin: "s2\<lparr>outputMarkup := outputMarkup s2 @ [Raw d, AnchorClose], annotating := False,
         startByte := startByte s2 + int (utf8_length [d])\<rparr> = s3"
    using f(3) by (cases s) (simp add: s3_def s2_def s1_def)
  have "walkChars S E (c # itemsChars mid @ d # rest) s
          = walkChars S E (itemsChars mid @ d # rest) s1"
    by (simp only: walkChars_Cons step1)
  also have "\<dots> = walkChars S E (d # rest) s2" by (rule mid)
  also have "\<dots> = walkChars S E rest (charStep S E d (peek rest) s2)"
    by (simp only: walkChars_Cons)
  finally have run: "walkChars S E (c # itemsChars mid @ d # rest) s = walkChars S E rest s3"
    by (simp only: step2 fin)
  have child: "walkChildren S E (child # later) s0 = walkChildren S E later (walkChars S E rest s3)"
    if ch: "childNodeChars child = Inr (pre @ c # itemsChars mid @ d # rest)"
      and pr: "walkPrefix S E pre (Some c)
                 (s0\<lparr>consumingSpan := False, annotating := False\<rparr>) = s"
  proof -
    have "walkChars S E (pre @ c # itemsChars mid @ d # rest)
            (s0\<lparr>consumingSpan := False, annotating := False\<rparr>)
          = walkChars S E (c # itemsChars mid @ d # rest) s"
      using walkChars_prefix
        [of S E pre "c # itemsChars mid @ d # rest"
           "s0\<lparr>consumingSpan := False, annotating := False\<rparr>"] pr
      by (simp add: peek_def)
    with run ch show ?thesis by simp
  qed
  from step1 run child show ?thesis
    unfolding s1_def s3_def by blast
qed

text \<open>
  The annotation of \<^verbatim>\<open>Println\<close> in the scenario: opened before \<^verbatim>\<open>P\<close> at offset 4,
  closed after \<^verbatim>\<open>n\<close> at offset 10, in the walk over the cell that holds
  \<^verbatim>\<open>fmt.Println(x)\<close>.
\<close>

theorem multi_byte_annotation_open_close_witness:
  "fmtStarts 4 = Some printlnAnnotation
   \<and> StartByte printlnAnnotation = 4 \<and> EndByte printlnAnnotation = 11
   \<and> fmtEnds 11 \<noteq> None
   \<and> itemsOk (map Visible (js ''rintl'')) (js ''n(x)'')
   \<and> itemsBytes (map Visible (js ''rintl'')) = 5
   \<and> endProbes 5 (map Visible (js ''rintl'')) = [6, 7, 8, 9, 10]
   \<and> map fmtEnds [6, 7, 8, 9, 10] = [None, None, None, None, None]
   \<and> childNodeChars (TextNode (js ''fmt.Println(x)'')) = Inr (js ''fmt.Println(x)'')
   \<and> walkPrefix fmtStarts fmtEnds (js ''fmt.'') (Some 0x50) initialState = fmtDotState
   \<and> charStep fmtStarts fmtEnds 0x50 (Some 0x72) fmtDotState =
       \<lparr>consumingSpan = False, annotating = True, startByte = 5,
        outputMarkup = [AnchorOpen (Some (js ''/x/fmt''))] @ map Raw (js ''fmt'')
          @ [AnchorClose, Raw chDot, AnchorOpen (Some (js ''/x/Println'')), Raw 0x50]\<rparr>
   \<and> walkChars fmtStarts fmtEnds (js ''Println(x)'') fmtDotState =
       \<lparr>consumingSpan = False, annotating = False, startByte = 14,
        outputMarkup = fmtMarkup\<rparr>
   \<and> walkChildren fmtStarts fmtEnds fmtCell initialState =
       Inr \<lparr>consumingSpan = False, annotating = False, startByte = 14,
            outputMarkup = fmtMarkup\<rparr>"
proof -
  have 1: "fmtStarts 4 = Some printlnAnnotation"
    by (simp add: fmt_starts printlnAnnotation_def)
  have 2: "StartByte printlnAnnotation = 4" and 3: "EndByte printlnAnnotation = 11"
    by (simp_all add: printlnAnnotation_def)
  have 4: "(11::int) - 4 > 1" by simp
  have 5: "fmtEnds 11 \<noteq> None" by (simp add: fmt_ends)
  have 6: "\<not> consumingSpan fmtDotState" and 7: "\<not> annotating fmtDotState"
    and 8: "startByte fmtDotState = 4"
    by (simp_all add: fmtDotState_def)
  have 9: "\<not> ((0x50::jschar) = chLt
              \<and> peek (itemsChars (map Visible (js ''rintl'')) @ 0x6E # js ''(x)'') \<noteq> Some chSpace)"
    by simp
  have 10: "itemsOk (map Visible (js ''rintl'')) (0x6E # js ''(x)'')"
    by (simp add: js_simps)
  have 11: "\<not> ((0x6E::jschar) = chLt \<and> peek (js ''(x)'') \<noteq> Some chSpace)" by simp
  have 12: "4 + int (utf8_length [0x50::jschar]) + itemsBytes (map Visible (js ''rintl'')) + 1
              = 11"
    by (simp add: println_items utf8_length_single)
  have none: "map fmtEnds [6, 7, 8, 9, 10] = [None, None, None, None, None]"
    by (simp add: fmt_ends)
  have 13: "\<forall>k \<in> set (endProbes (4 + int (utf8_length [0x50::jschar]))
                         (map Visible (js ''rintl''))). fmtEnds k = None"
    using none by (simp add: utf8_length_single println_items)
  note w = multi_byte_annotation_open_close
    [where S = fmtStarts and E = fmtEnds and N = 4 and M = 11 and a = printlnAnnotation
       and s = fmtDotState and c = "0x50" and mid = "map Visible (js ''rintl'')"
       and d = "0x6E" and rest = "js ''(x)''"
       and child = "TextNode (js ''fmt.Println(x)'')" and pre = "js ''fmt.''"
       and ?s0.0 = initialState and later = "[]",
     OF 1 2 3 4 5 6 7 8 9 10 11 12 13, unfolded println_items(1)]
  have pk: "peek (js ''rintl'' @ 0x6E # js ''(x)'') = Some 0x72"
    by (simp add: js_simps peek_def)
  have a: "charStep fmtStarts fmtEnds 0x50 (Some 0x72) fmtDotState =
       \<lparr>consumingSpan = False, annotating = True, startByte = 5,
        outputMarkup = [AnchorOpen (Some (js ''/x/fmt''))] @ map Raw (js ''fmt'')
          @ [AnchorClose, Raw chDot, AnchorOpen (Some (js ''/x/Println'')), Raw 0x50]\<rparr>"
    using w [THEN conjunct1]
    by (simp add: pk) (simp add: fmtDotState_def printlnAnnotation_def utf8_length_single)
  have str: "0x50 # js ''rintl'' @ 0x6E # js ''(x)'' = js ''Println(x)''"
    by (simp add: js_simps)
  have tail: "walkChars fmtStarts fmtEnds (js ''(x)'')
       (fmtDotState\<lparr>outputMarkup := outputMarkup fmtDotState
             @ [AnchorOpen (URL printlnAnnotation), Raw 0x50]
             @ map Raw (js ''rintl'') @ [Raw 0x6E, AnchorClose],
          annotating := False, startByte := 11 - 1 + int (utf8_length [0x6E::jschar])\<rparr>)
       = \<lparr>consumingSpan = False, annotating = False, startByte = 14,
          outputMarkup = fmtMarkup\<rparr>"
    by (simp add: utf8_length_single)
       (simp add: fmt_starts fmt_ends fmtDotState_def fmtMarkup_def printlnAnnotation_def
          js_simps charStep_def nextChar_def utf8_length_single Let_def)
  have b: "walkChars fmtStarts fmtEnds (js ''Println(x)'') fmtDotState =
       \<lparr>consumingSpan = False, annotating = False, startByte = 14,
        outputMarkup = fmtMarkup\<rparr>"
    using w [THEN conjunct2, THEN conjunct1]
    by (simp only: tail str)
  have n: "childNodeChars (TextNode (js ''fmt.Println(x)'')) = Inr (js ''fmt.Println(x)'')"
    by simp
  have whole: "js ''fmt.'' @ 0x50 # js ''rintl'' @ 0x6E # js ''(x)'' = js ''fmt.Println(x)''"
    by (simp add: js_simps)
  have i: "initialState\<lparr>consumingSpan := False, annotating := False\<rparr> = initialState"
    by (simp add: initialState_def)
  have c: "walkChildren fmtStarts fmtEnds fmtCell initialState =
       Inr \<lparr>consumingSpan = False, annotating = False, startByte = 14,
            outputMarkup = fmtMarkup\<rparr>"
    using w [THEN conjunct2, THEN conjunct2] n fmt_prefix_walked
    by (simp only: whole i tail fmtCell_def) simp
  have ok: "itemsOk (map Visible (js ''rintl'')) (js ''n(x)'')"
    using 10 by (simp add: js_simps)
  from 1 2 3 5 ok println_items(2,3) none n fmt_prefix_walked a b c show ?thesis by blast
qed

text \<open>
  C5 as stated fails in three ways. First, the annotation spans two child nodes: it
  covers bytes 0 to 2, \<^verbatim>\<open>a\<close> lies in an element and \<^verbatim>\<open>b\<close> in the text node after it;
  \<^verbatim>\<open>b\<close> has offset 1, and 1 + 1 is the end byte, yet no closing anchor follows it.
  Second, an annotation is still open when the start offset is reached: the annotation
  on the two bytes of U+00E9 is never closed, since no character has offset 1, and the
  annotation that starts at offset 2 gets no opening anchor before its \<^verbatim>\<open>a\<close>. Third,
  another annotation ends in between: the end boundary 3 of the annotation on \<^verbatim>\<open>bc\<close>
  closes the anchor of the annotation on \<^verbatim>\<open>abcd\<close>, and no closing anchor follows
  \<^verbatim>\<open>d\<close> at offset 3 although 3 + 1 is the end byte.
\<close>

theorem multi_byte_annotation_counterexample:
  "abStarts 0 = Some \<lparr>StartByte = 0, EndByte = 2, URL = Some (js ''/x/ab'')\<rparr>
   \<and> abEnds 2 = Some \<lparr>StartByte = 0, EndByte = 2, URL = Some (js ''/x/ab'')\<rparr>
   \<and> walkChildren abStarts abEnds abSpanCell initialState =
       Inr \<lparr>consumingSpan = False, annotating = False, startByte = 2,
            outputMarkup = map Raw (js ''<span>'')
              @ [AnchorOpen (Some (js ''/x/ab'')), Raw 0x61]
              @ map Raw (js ''</span>'') @ [Raw 0x62]\<rparr>
   \<and> walkChildren [0 \<mapsto> eAnnotation, 2 \<mapsto> afterAnnotation]
         [2 \<mapsto> eAnnotation, 4 \<mapsto> afterAnnotation]
         eabCell initialState =
       Inr \<lparr>consumingSpan = False, annotating = False, startByte = 4,
            outputMarkup = [AnchorOpen (Some (js ''/x/e'')), Raw 0xE9, Raw 0x61, Raw 0x62,
                            AnchorClose]\<rparr>
   \<and> walkChildren [0 \<mapsto> outerAnnotation, 1 \<mapsto> innerAnnotation]
         [4 \<mapsto> outerAnnotation, 3 \<mapsto> innerAnnotation]
         [TextNode (js ''abcd'')] initialState =
       Inr \<lparr>consumingSpan = False, annotating = False, startByte = 4,
            outputMarkup = [AnchorOpen (Some (js ''/x/abcd'')), Raw 0x61, Raw 0x62, Raw 0x63,
                            AnchorClose, Raw 0x64]\<rparr>"
  by (simp add: abSpanCell_def eabCell_def ab_starts ab_ends initialState_def js_simps charStep_def
      nextChar_def utf8_length_single Let_def eAnnotation_def afterAnnotation_def
      outerAnnotation_def innerAnnotation_def)

text \<open>
  C6. With no annotation open and a one-byte annotation in the start index at the current
  offset, the renderer emits the opening anchor, the character and the closing anchor,
  and leaves the flag unset; within the row no other character is wrapped by that
  annotation (\<open>one_byte_annotation_once_in_row\<close>). Over a whole pass the last part
  fails. The first row holds \<^verbatim>\<open>&&\<close> inside an element, the second row holds
  \<^verbatim>\<open>abc\<close>, and the annotation is on the byte at offset 4 of the file, the \<^verbatim>\<open>b\<close>.
  The loop walks the serialized element and counts every character of \<^verbatim>\<open>&amp;\<close>, so
  it reaches the \<^verbatim>\<open>;\<close> of the first entity at offset 4 and wraps it. The row counter
  measures the text \<^verbatim>\<open>&&\<close>, so the second row starts at offset 3, its \<^verbatim>\<open>b\<close> is
  reached at offset 4 and is wrapped as well: two characters are wrapped by the one
  annotation.
\<close>

theorem one_byte_annotation_wraps_two_characters:
  "traverseRows [4 \<mapsto> bAnnotation] [5 \<mapsto> bAnnotation] [ampRow, abcRow] 0 0 initialState =
     ([(0, map Raw (js ''<span>&amp'')
             @ [AnchorOpen (Some (js ''/x/b'')), Raw 0x3B, AnchorClose]
             @ map Raw (js ''&amp;</span>'')),
       (1, [Raw 0x61, AnchorOpen (Some (js ''/x/b'')), Raw 0x62, AnchorClose, Raw 0x63])],
      Inr (7, \<lparr>consumingSpan = False, annotating = False, startByte = 6,
               outputMarkup =
                 [Raw 0x61, AnchorOpen (Some (js ''/x/b'')), Raw 0x62, AnchorClose,
                  Raw 0x63]\<rparr>))"
  by (simp add: traverseRow_def ampRow_def abcRow_def nth_opt_def textContent_def
        amp_text_length abc_text_length)
     (simp add: js_simps initialState_def bAnnotation_def charStep_def nextChar_def
        utf8_length_single Let_def)

text \<open>
  C7. The flag \<^verbatim>\<open>consumingSpan\<close> is raised by a \<^verbatim>\<open><\<close> whose next character is not a
  space (the end of the child node counts as not a space), stays raised on every
  character other than \<^verbatim>\<open>>\<close>, and is cleared by \<^verbatim>\<open>>\<close>. A character handled while the
  flag is raised, the raising \<^verbatim>\<open><\<close> and the clearing \<^verbatim>\<open>>\<close> included, is appended to
  the output as it is; the byte offset and the flag \<^verbatim>\<open>annotating\<close> keep their
  values.
\<close>

theorem markup_consumption_flag:
  "(c = chLt \<and> nxt \<noteq> Some chSpace \<longrightarrow> consumingSpan (charStep S E c nxt s))
   \<and> (consumingSpan s \<and> c \<noteq> chGt \<longrightarrow> consumingSpan (charStep S E c nxt s))
   \<and> (c = chGt \<longrightarrow> \<not> consumingSpan (charStep S E c nxt s))
   \<and> (consumingSpan s \<or> (c = chLt \<and> nxt \<noteq> Some chSpace) \<longrightarrow>
        outputMarkup (charStep S E c nxt s) = outputMarkup s @ [Raw c]
        \<and> startByte (charStep S E c nxt s) = startByte s
        \<and> annotating (charStep S E c nxt s) = annotating s)"
proof -
  have 1: "c = chLt \<and> nxt \<noteq> Some chSpace \<longrightarrow> consumingSpan (charStep S E c nxt s)"
    by (simp add: charStep_markup)
  have 2: "consumingSpan s \<and> c \<noteq> chGt \<longrightarrow> consumingSpan (charStep S E c nxt s)"
    by (simp add: charStep_markup)
  have 3: "c = chGt \<longrightarrow> \<not> consumingSpan (charStep S E c nxt s)"
    by (simp add: charStep_def Let_def split: prod.splits)
  have 4: "consumingSpan s \<or> (c = chLt \<and> nxt \<noteq> Some chSpace) \<longrightarrow>
        outputMarkup (charStep S E c nxt s) = outputMarkup s @ [Raw c]
        \<and> startByte (charStep S E c nxt s) = startByte s
        \<and> annotating (charStep S E c nxt s) = annotating s"
    by (simp add: charStep_markup)
  from 1 2 3 4 show ?thesis by blast
qed

text \<open>
  The opening tag of a \<^verbatim>\<open>span\<close>: raised at \<^verbatim>\<open><\<close>, kept on \<^verbatim>\<open>n\<close>, cleared at
  \<^verbatim>\<open>>\<close>, with the offset still 0.
\<close>

theorem markup_consumption_flag_witness:
  "Some (0x73::jschar) \<noteq> Some chSpace
   \<and> consumingSpan (charStep fmtStarts fmtEnds chLt (Some 0x73) initialState)
   \<and> outputMarkup (charStep fmtStarts fmtEnds chLt (Some 0x73) initialState) = [Raw chLt]
   \<and> startByte (charStep fmtStarts fmtEnds chLt (Some 0x73) initialState) = 0
   \<and> \<not> annotating (charStep fmtStarts fmtEnds chLt (Some 0x73) initialState)
   \<and> consumingSpan tagState
   \<and> consumingSpan (charStep fmtStarts fmtEnds 0x6E (Some chGt) tagState)
   \<and> \<not> consumingSpan (charStep fmtStarts fmtEnds chGt (Some 0x66) tagState)
   \<and> outputMarkup (charStep fmtStarts fmtEnds chGt (Some 0x66) tagState)
       = map Raw (js ''<span>'')
   \<and> startByte (charStep fmtStarts fmtEnds chGt (Some 0x66) tagState) = 0"
proof -
  have t: "consumingSpan tagState" by (simp add: tagState_def)
  from markup_consumption_flag
         [where c = chLt and nxt = "Some 0x73" and S = fmtStarts and E = fmtEnds
            and s = initialState]
       markup_consumption_flag
         [where c = "0x6E" and nxt = "Some chGt" and S = fmtStarts and E = fmtEnds
            and s = tagState]
       markup_consumption_flag
         [where c = chGt and nxt = "Some 0x66" and S = fmtStarts and E = fmtEnds
            and s = tagState]
       t
  show ?thesis
    by (simp add: initialState_def) (simp add: tagState_def js_simps)
qed

text \<open>
  C8. The claim: every visible character moves the byte offset by its UTF-8 length, 1
  to 4 bytes. The script measures each UTF-16 code unit alone, which is right for the
  characters of the Basic Multilingual Plane (\<open>visible_character_advance\<close>) and wrong
  for the others: \<^verbatim>\<open>split("")\<close> cuts U+1F600 into its two surrogates, and the offset
  moves by 3 + 3 = 6 where the character has 4 bytes. The row counter, computed from the
  whole text, counts 4 for it, so after this row \<^verbatim>\<open>startByte\<close> has run past
  \<^verbatim>\<open>count\<close>.
\<close>

theorem astral_character_advances_by_six:
  "ucs2decode grinningFace = [0x1F600]
   \<and> utf8_length grinningFace = 4
   \<and> walkChars Map.empty Map.empty grinningFace initialState =
       \<lparr>consumingSpan = False, annotating = False, startByte = 6,
        outputMarkup = [Raw 0xD83D, Raw 0xDE00]\<rparr>
   \<and> traverseRow Map.empty Map.empty [[], [TextNode grinningFace]] 0 initialState =
       Inr (5, \<lparr>consumingSpan = False, annotating = False, startByte = 6,
                outputMarkup = [Raw 0xD83D, Raw 0xDE00]\<rparr>)"
proof -
  have d: "ucs2decode grinningFace = [0x1F600]"
    by (simp add: grinningFace_def isHighSurrogate_def isLowSurrogate_def)
  have l: "utf8_length grinningFace = 4"
    by (simp add: utf8_length_def d codePointBytes_def)
  have w: "walkChars Map.empty Map.empty grinningFace initialState =
       \<lparr>consumingSpan = False, annotating = False, startByte = 6,
        outputMarkup = [Raw 0xD83D, Raw 0xDE00]\<rparr>"
    by (simp add: grinningFace_def initialState_def charStep_def nextChar_def
        utf8_length_single Let_def)
  have r: "traverseRow Map.empty Map.empty [[], [TextNode grinningFace]] 0 initialState =
       Inr (5, \<lparr>consumingSpan = False, annotating = False, startByte = 6,
                outputMarkup = [Raw 0xD83D, Raw 0xDE00]\<rparr>)"
    using w by (simp add: traverseRow_def nth_opt_def textContent_def l initialState_def)
       (simp add: grinningFace_def)
  from d l w r show ?thesis by simp
qed

text \<open>
  C9, as the code has it. The identity request has a \<^verbatim>\<open>done\<close> handler only. If it
  fails on a private page, the run ends there: no version request is sent, with or
  without a token, no annotation request is sent and the document is not changed.
\<close>

theorem auth_failure_stops_pipeline:
  assumes "visPrivate p" and "authReply sv = Fail"
  shows "getAuthToken p sv = ([AuthRequest], None)
         \<and> \<not> list_ex isVersionRequest (fst (mainCall p sv))
         \<and> \<not> list_ex isAnnotationsRequest (fst (mainCall p sv))
         \<and> \<not> list_ex isMutation (fst (mainCall p sv))"
proof -
  have "getAuthToken p sv = ([AuthRequest], None)"
    using assms by (simp add: getAuthToken_def)
  moreover from no_token_without_auth [OF assms]
  have "\<not> list_ex isVersionRequest (fst (mainCall p sv))"
       "\<not> list_ex isAnnotationsRequest (fst (mainCall p sv))"
       "\<not> list_ex isMutation (fst (mainCall p sv))"
    by auto
  ultimately show ?thesis by simp
qed

theorem auth_failure_stops_pipeline_witness:
  "visPrivate privateGoPage
   \<and> authReply \<lparr>authReply = Fail, versionReply = Done (),
                 annotationsReply = Done (Some fmtAnnotations)\<rparr> = Fail
   \<and> getAuthToken privateGoPage \<lparr>authReply = Fail, versionReply = Done (),
                 annotationsReply = Done (Some fmtAnnotations)\<rparr> = ([AuthRequest], None)
   \<and> \<not> list_ex isVersionRequest
         (fst (mainCall privateGoPage \<lparr>authReply = Fail, versionReply = Done (),
                                        annotationsReply = Done (Some fmtAnnotations)\<rparr>))"
proof -
  have v: "visPrivate privateGoPage" by (simp add: private_go_page_fields)
  have f: "authReply \<lparr>authReply = Fail, versionReply = Done (),
                 annotationsReply = Done (Some fmtAnnotations)\<rparr> = Fail" by simp
  from auth_failure_stops_pipeline [OF v f] v show ?thesis by simp
qed

text \<open>
  C9 as stated fails: on the private example page with a failing identity request, the
  run consists of the click listener and the identity request, and no version request
  is made.
\<close>

theorem auth_failure_counterexample:
  "visPrivate privateGoPage
   \<and> mainCall privateGoPage \<lparr>authReply = Fail, versionReply = Done (),
                               annotationsReply = Done (Some fmtAnnotations)\<rparr>
       = ([ListenClicks, AuthRequest], None)
   \<and> \<not> list_ex isVersionRequest
         (fst (mainCall privateGoPage \<lparr>authReply = Fail, versionReply = Done (),
                                        annotationsReply = Done (Some fmtAnnotations)\<rparr>))"
  by (simp add: mainCall_def private_go_page_fields go_extension getAuthToken_def prepend_def)

text \<open>
  C10. A run sends a request or changes the document only if the file name shown on the
  page has the extension \<^verbatim>\<open>go\<close>; with any other extension no request is sent and the
  document is left as it is. The extension is the text after the last dot of the name,
  in lower case.
\<close>

theorem pipeline_starts_only_for_go_files:
  "(list_ex (\<lambda>a. isRequest a \<or> isMutation a) (fst (mainCall p sv)) \<longrightarrow>
      blobWrapper p \<and> (\<exists>name. finalPath p = Some name \<and> fileExtension name = js ''go''))
   \<and> (finalPath p = Some name \<and> fileExtension name \<noteq> js ''go'' \<longrightarrow>
        \<not> list_ex (\<lambda>a. isRequest a \<or> isMutation a) (fst (mainCall p sv)))
   \<and> (chDot \<notin> set ext \<longrightarrow> fileExtension (base @ chDot # ext) = toLowerCase ext)"
proof -
  have 1: "list_ex (\<lambda>a. isRequest a \<or> isMutation a) (fst (mainCall p sv)) \<longrightarrow>
      blobWrapper p \<and> (\<exists>name. finalPath p = Some name \<and> fileExtension name = js ''go'')"
    by (auto simp: mainCall_def split: option.splits if_splits)
  have 2: "finalPath p = Some name \<and> fileExtension name \<noteq> js ''go'' \<longrightarrow>
        \<not> list_ex (\<lambda>a. isRequest a \<or> isMutation a) (fst (mainCall p sv))"
    by (auto simp: mainCall_def)
  have 3: "chDot \<notin> set ext \<longrightarrow> fileExtension (base @ chDot # ext) = toLowerCase ext"
    by (simp add: fileExtension_def last_split)
  from 1 2 3 show ?thesis by blast
qed

text \<open>
  The Go page starts the pipeline; the page of \<^verbatim>\<open>README.md\<close> does not.
\<close>

theorem pipeline_starts_only_for_go_files_witness:
  "list_ex (\<lambda>a. isRequest a \<or> isMutation a)
     (fst (mainCall goPage \<lparr>authReply = Fail, versionReply = Done (),
                             annotationsReply = Done (Some fmtAnnotations)\<rparr>))
   \<and> blobWrapper goPage
   \<and> (\<exists>name. finalPath goPage = Some name \<and> fileExtension name = js ''go'')
   \<and> finalPath readmePage = Some (js ''README.md'')
   \<and> fileExtension (js ''README.md'') \<noteq> js ''go''
   \<and> \<not> list_ex (\<lambda>a. isRequest a \<or> isMutation a)
         (fst (mainCall readmePage \<lparr>authReply = Fail, versionReply = Done (),
                                     annotationsReply = Done (Some fmtAnnotations)\<rparr>))
   \<and> chDot \<notin> set (js ''go'')
   \<and> fileExtension (js ''print'' @ chDot # js ''go'') = toLowerCase (js ''go'')"
proof -
  let ?sv = "\<lparr>authReply = Fail, versionReply = Done (),
              annotationsReply = Done (Some fmtAnnotations)\<rparr>"
  have a: "list_ex (\<lambda>a. isRequest a \<or> isMutation a) (fst (mainCall goPage ?sv))"
    by (simp add: mainCall_def go_page_fields go_extension go_checkLatestCommit prepend_def)
  have b: "finalPath readmePage = Some (js ''README.md'')"
    by (simp add: readmePage_def)
  have c: "fileExtension (js ''README.md'') \<noteq> js ''go''"
    unfolding readme_extension by (simp add: js_simps)
  have d: "chDot \<notin> set (js ''go'')"
    by (simp add: js_simps)
  from pipeline_starts_only_for_go_files
         [where p = goPage and sv = ?sv and name = "js ''print.go''" and ext = "js ''go''"
            and base = "js ''print''"]
       a d
  have g: "blobWrapper goPage
           \<and> (\<exists>name. finalPath goPage = Some name \<and> fileExtension name = js ''go'')"
       and e: "fileExtension (js ''print'' @ chDot # js ''go'') = toLowerCase (js ''go'')"
    by blast+
  from pipeline_starts_only_for_go_files
         [where p = readmePage and sv = ?sv and name = "js ''README.md''" and ext = "js ''go''"
            and base = "js ''print''"]
       b c
  have r: "\<not> list_ex (\<lambda>a. isRequest a \<or> isMutation a) (fst (mainCall readmePage ?sv))"
    by blast
  from a g b c r d e show ?thesis by blast
qed

end
